theory Spec2Isabelle
  imports Complex_Main
begin

section \<open>The motif scanner of universalmotif (scan\_sequences.cpp)\<close>

text \<open>
  The scanner encodes raw sequences over an alphabet into integer streams, optionally
  recodes every run of \<open>k\<close> symbols into one composite symbol, scores every window of
  every stream against every score matrix, and reports the windows whose score reaches
  the threshold of their motif.

  The embedding follows the C++ source function by function.
  \<^item> \<open>std::vector\<close> is a list. \<open>operator[]\<close> outside the vector is undefined behaviour in
    C++; here it is the error value \<open>OutOfBounds\<close>, so that every read of the source is
    a branch of the model.
  \<^item> \<open>std::size_t\<close> is 64 bits wide. The loop bounds of the source subtract the
    \<open>int\<close> \<open>k\<close> from a vector size in \<open>size_t\<close>; the model computes them in the
    integers and reduces modulo \<open>2 ^ 64\<close> (\<open>size_t_of\<close>).
  \<^item> The counters \<open>i\<close>, \<open>j\<close> and the sums \<open>i + j\<close>, \<open>j + b\<close> of the loops are natural
    numbers: a loop ends at the first read outside a vector, long before a counter
    could reach \<open>2 ^ 64\<close>.
  \<^item> The accumulators of the window scores are unbounded integers: signed overflow of a
    sum of matrix entries is not modelled. Every value that the source converts from
    \<open>double\<close> to \<open>int\<close> is a 32-bit \<open>int\<close>: the scaled thresholds and matrix
    entries, and the accumulator of the recoding loop, which passes through \<open>double\<close>
    at every step.
  \<^item> A finite \<open>double\<close> is the real number it denotes, and an arithmetic operation on
    \<open>double\<close> is the exact operation followed by the rounding to the nearest
    \<open>double\<close> (\<open>round_double\<close>). The inputs of the entry point are finite; a
    rounded result of magnitude \<open>2 ^ 1024\<close> or more stands for an infinity.
  \<^item> \<open>RcppThread::parallelFor\<close> runs independent iterations that each write their own
    slot; it is the sequential loop over the same indices, and \<open>nthreads\<close> has no part
    in the result.
\<close>

subsection \<open>Errors, vectors and size\_t\<close>

datatype error =
    Stop string      \<comment> \<open>\<open>Rcpp::stop\<close>: an R error with its message\<close>
  | OutOfBounds      \<comment> \<open>\<open>operator[]\<close> outside a vector\<close>
  | OutOfRange       \<comment> \<open>the exception \<open>std::out_of_range\<close> of \<open>std::string::substr\<close>\<close>

definition size_t_of :: "int \<Rightarrow> nat" where
  "size_t_of x = nat (x mod 2 ^ 64)"

definition vec_at :: "'a list \<Rightarrow> nat \<Rightarrow> error + 'a" where
  "vec_at v i = (if i < length v then Inr (v ! i) else Inl OutOfBounds)"

text \<open>
  A vector indexed by an \<open>int\<close>: the index is converted to \<open>size_t\<close> first. A
  negative \<open>int\<close> becomes a \<open>size_t\<close> of at least \<open>2 ^ 64 - 2 ^ 31\<close>, which is
  beyond the end of every vector.
\<close>

definition vec_at_int :: "'a list \<Rightarrow> int \<Rightarrow> error + 'a" where
  "vec_at_int v x = (if x < 0 then Inl OutOfBounds else vec_at v (nat x))"

definition vec_set :: "'a list \<Rightarrow> nat \<Rightarrow> 'a \<Rightarrow> error + 'a list" where
  "vec_set v i x = (if i < length v then Inr (v[i := x]) else Inl OutOfBounds)"

text \<open>A loop over a vector whose body may fail: the first failure ends the loop.\<close>

fun for_each :: "('a \<Rightarrow> error + 'b) \<Rightarrow> 'a list \<Rightarrow> error + 'b list" where
  "for_each f [] = Inr []"
| "for_each f (x # xs) =
     (case f x of
        Inl e \<Rightarrow> Inl e
      | Inr y \<Rightarrow> (case for_each f xs of Inl e \<Rightarrow> Inl e | Inr ys \<Rightarrow> Inr (y # ys)))"

subsection \<open>Arithmetic on double\<close>

text \<open>
  The nearest integer of a real number, the even one of the two when it lies halfway
  between them.
\<close>

definition round_even :: "real \<Rightarrow> int" where
  "round_even x =
     (let f = \<lfloor>x\<rfloor>; d = x - of_int f
      in if d < 1 / 2 then f else if 1 / 2 < d then f + 1 else if even f then f else f + 1)"

text \<open>
  The binary exponent of a nonzero \<open>double\<close>: the \<open>e\<close> with
  \<open>2 ^ e \<le> \<bar>x\<bar> < 2 ^ (e + 1)\<close>, and \<open>- 1022\<close> for the subnormal numbers below
  \<open>2 ^ - 1022\<close>.
\<close>

definition double_exponent :: "real \<Rightarrow> int" where
  "double_exponent x = max \<lfloor>log 2 \<bar>x\<bar>\<rfloor> (- 1022)"

text \<open>
  The rounding of IEEE 754 binary64 in the default mode, to nearest with ties to even:
  the significand has 53 bits, so the result is the multiple of
  \<open>2 ^ (e - 52)\<close> nearest to \<open>x\<close>. The exponent has no upper end here: a result of
  magnitude \<open>2 ^ 1024\<close> or more is an infinity of the source.
\<close>

definition round_double :: "real \<Rightarrow> real" where
  "round_double x =
     (if x = 0 then 0
      else of_int (round_even (x / 2 powr of_int (double_exponent x - 52))) *
           2 powr of_int (double_exponent x - 52))"

text \<open>
  The conversion of a \<open>double\<close> to \<open>int\<close> drops the fractional part. For a value
  outside the range of \<open>int\<close> (an infinity among them) the conversion is undefined in
  C++; the model takes \<open>- 2 ^ 31\<close>, the value that the conversion instruction of x86-64
  delivers there.
\<close>

definition double_to_int :: "real \<Rightarrow> int" where
  "double_to_int x =
     (let z = (if x \<ge> 0 then \<lfloor>x\<rfloor> else \<lceil>x\<rceil>)
      in if - (2 ^ 31) \<le> z \<and> z < 2 ^ 31 then z else - (2 ^ 31))"

subsection \<open>Higher-order recoding: deal\_with\_higher\_k\_NA and deal\_with\_higher\_k\<close>

text \<open>
  One step of the loop over \<open>b\<close>: \<open>tmp += seq_ints[i][j + b] * pow(let_len, k - b - 1)\<close>.
  \<open>pow\<close> returns a \<open>double\<close>, the power rounded; the product and the sum are
  computed in \<open>double\<close>, and the sum is converted to the \<open>int\<close> \<open>tmp\<close>. When the
  power is an infinity and the symbol is \<open>0\<close> the product is not a number, and its
  conversion is the one of a value outside the range of \<open>int\<close>.
\<close>

definition higher_k_add :: "int \<Rightarrow> int \<Rightarrow> int \<Rightarrow> nat \<Rightarrow> int" where
  "higher_k_add tmp x let_len e =
     (let p = round_double (of_int (let_len ^ e))
      in if x = 0 \<and> 2 ^ 1024 \<le> \<bar>p\<bar> then - (2 ^ 31)
         else double_to_int (round_double (of_int tmp + round_double (of_int x * p))))"

text \<open>
  The loop over \<open>b\<close>, in the sentinel-aware variant after the test
  \<open>seq_ints[i][j + b] < 0\<close>, which sets \<open>tmp\<close> to \<open>-1\<close> and leaves the loop.
\<close>

function higher_k_NA_window :: "int list \<Rightarrow> int \<Rightarrow> int \<Rightarrow> nat \<Rightarrow> nat \<Rightarrow> int \<Rightarrow> error + int" where
  "higher_k_NA_window s k let_len j b tmp =
     (if int b < k then
        (case vec_at s (j + b) of
           Inl e \<Rightarrow> Inl e
         | Inr x \<Rightarrow>
             if x < 0 then Inr (- 1)
             else higher_k_NA_window s k let_len j (Suc b)
                    (higher_k_add tmp x let_len (nat (k - int b - 1))))
      else Inr tmp)"
  by pat_completeness auto
termination
  by (relation "measure (\<lambda>(s, k, let_len, j, b, tmp). nat k - b)") auto

function higher_k_window :: "int list \<Rightarrow> int \<Rightarrow> int \<Rightarrow> nat \<Rightarrow> nat \<Rightarrow> int \<Rightarrow> error + int" where
  "higher_k_window s k let_len j b tmp =
     (if int b < k then
        (case vec_at s (j + b) of
           Inl e \<Rightarrow> Inl e
         | Inr x \<Rightarrow>
             higher_k_window s k let_len j (Suc b)
               (higher_k_add tmp x let_len (nat (k - int b - 1))))
      else Inr tmp)"
  by pat_completeness auto
termination
  by (relation "measure (\<lambda>(s, k, let_len, j, b, tmp). nat k - b)") auto

text \<open>
  The loop over \<open>j\<close>, up to \<open>seq_ints[i].size() - k + 1\<close> in \<open>size_t\<close>; the composite
  value is written over position \<open>j\<close> of the same vector.
\<close>

function higher_k_NA_positions :: "int \<Rightarrow> int \<Rightarrow> nat \<Rightarrow> nat \<Rightarrow> int list \<Rightarrow> error + int list" where
  "higher_k_NA_positions k let_len bound j s =
     (if j < bound then
        (case higher_k_NA_window s k let_len j 0 0 of
           Inl e \<Rightarrow> Inl e
         | Inr tmp \<Rightarrow>
             (case vec_set s j tmp of
                Inl e \<Rightarrow> Inl e
              | Inr s' \<Rightarrow> higher_k_NA_positions k let_len bound (Suc j) s'))
      else Inr s)"
  by pat_completeness auto
termination
  by (relation "measure (\<lambda>(k, let_len, bound, j, s). bound - j)") auto

function higher_k_positions :: "int \<Rightarrow> int \<Rightarrow> nat \<Rightarrow> nat \<Rightarrow> int list \<Rightarrow> error + int list" where
  "higher_k_positions k let_len bound j s =
     (if j < bound then
        (case higher_k_window s k let_len j 0 0 of
           Inl e \<Rightarrow> Inl e
         | Inr tmp \<Rightarrow>
             (case vec_set s j tmp of
                Inl e \<Rightarrow> Inl e
              | Inr s' \<Rightarrow> higher_k_positions k let_len bound (Suc j) s'))
      else Inr s)"
  by pat_completeness auto
termination
  by (relation "measure (\<lambda>(k, let_len, bound, j, s). bound - j)") auto

declare higher_k_NA_window.simps [simp del] higher_k_window.simps [simp del]
  higher_k_NA_positions.simps [simp del] higher_k_positions.simps [simp del]

text \<open>
  The composite value of the \<open>k\<close> symbols that start at position \<open>j\<close>, as the
  specification writes it: the sum of \<open>symbol[b] * |alphabet| ^ (k - 1 - b)\<close> for
  \<open>b\<close> in \<open>[0, k)\<close>. It stands beside the loops above to compare them with.
\<close>

definition composite_value :: "int list \<Rightarrow> int \<Rightarrow> int \<Rightarrow> nat \<Rightarrow> int" where
  "composite_value s k let_len j = (\<Sum>b < nat k. s ! (j + b) * let_len ^ (nat k - 1 - b))"

text \<open>The body of the loop over \<open>i\<close>: one stream recoded in place.\<close>

definition higher_k_NA_seq :: "int \<Rightarrow> int \<Rightarrow> int list \<Rightarrow> error + int list" where
  "higher_k_NA_seq k let_len s =
     higher_k_NA_positions k let_len (size_t_of (int (length s) - k + 1)) 0 s"

definition higher_k_seq :: "int \<Rightarrow> int \<Rightarrow> int list \<Rightarrow> error + int list" where
  "higher_k_seq k let_len s =
     higher_k_positions k let_len (size_t_of (int (length s) - k + 1)) 0 s"

definition deal_with_higher_k_NA :: "int list list \<Rightarrow> int \<Rightarrow> int \<Rightarrow> error + int list list" where
  "deal_with_higher_k_NA seq_ints k let_len = for_each (higher_k_NA_seq k let_len) seq_ints"

definition deal_with_higher_k :: "int list list \<Rightarrow> int \<Rightarrow> int \<Rightarrow> error + int list list" where
  "deal_with_higher_k seq_ints k let_len = for_each (higher_k_seq k let_len) seq_ints"

subsection \<open>Window scoring: scan\_single\_seq\_NA and scan\_single\_seq\<close>

text \<open>
  The loop over \<open>j\<close>, the positions of the motif: the list argument holds the rows
  \<open>motif[j]\<close>, \<open>motif[j + 1]\<close>, ... that are still to be added.
\<close>

fun window_score_NA :: "int list list \<Rightarrow> int list \<Rightarrow> nat \<Rightarrow> nat \<Rightarrow> int \<Rightarrow> error + int" where
  "window_score_NA [] sequence i j tmp = Inr tmp"
| "window_score_NA (row # rows) sequence i j tmp =
     (case vec_at sequence (i + j) of
        Inl e \<Rightarrow> Inl e
      | Inr x \<Rightarrow>
          if x < 0 then window_score_NA rows sequence i (Suc j) (tmp + (- 999999))
          else (case vec_at_int row x of
                  Inl e \<Rightarrow> Inl e
                | Inr v \<Rightarrow> window_score_NA rows sequence i (Suc j) (tmp + v)))"

fun window_score :: "int list list \<Rightarrow> int list \<Rightarrow> nat \<Rightarrow> nat \<Rightarrow> int \<Rightarrow> error + int" where
  "window_score [] sequence i j tmp = Inr tmp"
| "window_score (row # rows) sequence i j tmp =
     (case vec_at sequence (i + j) of
        Inl e \<Rightarrow> Inl e
      | Inr x \<Rightarrow>
          (case vec_at_int row x of
             Inl e \<Rightarrow> Inl e
           | Inr v \<Rightarrow> window_score rows sequence i (Suc j) (tmp + v)))"

text \<open>
  The loop over \<open>i\<close>, up to \<open>sequence.size() - k + 1 - motif.size() + 1\<close> in \<open>size_t\<close>.
\<close>

function scan_loop_NA :: "int list list \<Rightarrow> int list \<Rightarrow> nat \<Rightarrow> nat \<Rightarrow> int list \<Rightarrow> error + int list" where
  "scan_loop_NA motif sequence bound i result =
     (if i < bound then
        (case window_score_NA motif sequence i 0 0 of
           Inl e \<Rightarrow> Inl e
         | Inr tmp \<Rightarrow> scan_loop_NA motif sequence bound (Suc i) (result @ [tmp]))
      else Inr result)"
  by pat_completeness auto
termination
  by (relation "measure (\<lambda>(motif, sequence, bound, i, result). bound - i)") auto

function scan_loop :: "int list list \<Rightarrow> int list \<Rightarrow> nat \<Rightarrow> nat \<Rightarrow> int list \<Rightarrow> error + int list" where
  "scan_loop motif sequence bound i result =
     (if i < bound then
        (case window_score motif sequence i 0 0 of
           Inl e \<Rightarrow> Inl e
         | Inr tmp \<Rightarrow> scan_loop motif sequence bound (Suc i) (result @ [tmp]))
      else Inr result)"
  by pat_completeness auto
termination
  by (relation "measure (\<lambda>(motif, sequence, bound, i, result). bound - i)") auto

declare scan_loop_NA.simps [simp del] scan_loop.simps [simp del]

definition scan_single_seq_NA :: "int list list \<Rightarrow> int list \<Rightarrow> int \<Rightarrow> error + int list" where
  "scan_single_seq_NA motif sequence k =
     scan_loop_NA motif sequence
       (size_t_of (int (length sequence) - k + 1 - int (length motif) + 1)) 0 []"

definition scan_single_seq :: "int list list \<Rightarrow> int list \<Rightarrow> int \<Rightarrow> error + int list" where
  "scan_single_seq motif sequence k =
     scan_loop motif sequence
       (size_t_of (int (length sequence) - k + 1 - int (length motif) + 1)) 0 []"

subsection \<open>Encoding and the scan of every pair: scan\_sequences\_cpp\_internal\<close>

text \<open>
  The loop over \<open>a\<close>: the first letter of the alphabet equal to the character gives
  its index; \<open>None\<close> is the case \<open>na_check\<close> still true after the loop.
\<close>

fun find_letter :: "char list \<Rightarrow> char \<Rightarrow> nat \<Rightarrow> nat option" where
  "find_letter [] c a = None"
| "find_letter (x # alph) c a = (if c = x then Some a else find_letter alph c (Suc a))"

text \<open>
  The loop over \<open>j\<close>, the characters of one sequence: it returns \<open>seq_ints[i]\<close> and
  \<open>na_index[i]\<close>.
\<close>

fun encode_chars :: "char list \<Rightarrow> char list \<Rightarrow> int list \<Rightarrow> int \<Rightarrow> int list \<times> int" where
  "encode_chars alph [] ints na = (ints, na)"
| "encode_chars alph (c # cs) ints na =
     (case find_letter alph c 0 of
        Some a \<Rightarrow> encode_chars alph cs (ints @ [int a]) na
      | None \<Rightarrow> encode_chars alph cs (ints @ [- 1]) 1)"

definition na_warning :: string where
  "na_warning = ''Non-standard letters detected. These were ignored.''"

text \<open>
  The result carries the warnings raised by \<open>Rcpp::warning\<close> next to the scores
  \<open>out[motif][sequence][offset]\<close>.
\<close>

definition scan_sequences_cpp_internal ::
  "int list list list \<Rightarrow> char list list \<Rightarrow> int \<Rightarrow> char list \<Rightarrow> int \<Rightarrow> bool
     \<Rightarrow> error + (string list \<times> int list list list)" where
  "scan_sequences_cpp_internal score_mats seq_vecs k alph nthreads warnNA =
     (let encoded = map (\<lambda>s. encode_chars alph s [] 0) seq_vecs;
          seq_ints = map fst encoded;
          na_index = map snd encoded;
          use_na_fun = (sum_list na_index > 0);
          warnings = (if use_na_fun \<and> warnNA then [na_warning] else [])
      in case (if k > 1 \<and> use_na_fun then deal_with_higher_k_NA seq_ints k (int (length alph))
               else if k > 1 then deal_with_higher_k seq_ints k (int (length alph))
               else Inr seq_ints) of
           Inl e \<Rightarrow> Inl e
         | Inr seq_ints' \<Rightarrow>
             (case (if use_na_fun
                    then for_each (\<lambda>m. for_each (\<lambda>s. scan_single_seq_NA m s k) seq_ints') score_mats
                    else for_each (\<lambda>m. for_each (\<lambda>s. scan_single_seq m s k) seq_ints') score_mats) of
                Inl e \<Rightarrow> Inl e
              | Inr out \<Rightarrow> Inr (warnings, out)))"

subsection \<open>Hits: format\_results and get\_matches\<close>

text \<open>
  \<open>format_results\<close> fills five columns with one \<open>push_back\<close> each per hit; the model
  keeps them as one list of rows.
\<close>

record hit =
  hit_motif :: int
  hit_sequence :: int
  hit_start :: int
  hit_stop :: int
  hit_score :: int

text \<open>
  The loop over \<open>b\<close>, the positions of one score vector: \<open>scores[i]\<close> is read at
  every position, \<open>motifs[i].size()\<close> for every hit.
\<close>

fun format_positions ::
  "int list \<Rightarrow> int list list list \<Rightarrow> nat \<Rightarrow> nat \<Rightarrow> nat \<Rightarrow> int list \<Rightarrow> error + hit list" where
  "format_positions scores motifs i j b [] = Inr []"
| "format_positions scores motifs i j b (x # xs) =
     (case vec_at scores i of
        Inl e \<Rightarrow> Inl e
      | Inr t \<Rightarrow>
          if x \<ge> t then
            (case vec_at motifs i of
               Inl e \<Rightarrow> Inl e
             | Inr mo \<Rightarrow>
                 (case format_positions scores motifs i j (Suc b) xs of
                    Inl e \<Rightarrow> Inl e
                  | Inr hs \<Rightarrow>
                      Inr (\<lparr>hit_motif = int i + 1, hit_sequence = int j + 1,
                            hit_start = int b + 1, hit_stop = int b + int (length mo),
                            hit_score = x\<rparr> # hs)))
          else format_positions scores motifs i j (Suc b) xs)"

text \<open>The loop over \<open>j\<close>, the sequences scanned with one motif.\<close>

fun format_sequences ::
  "int list \<Rightarrow> int list list list \<Rightarrow> nat \<Rightarrow> nat \<Rightarrow> int list list \<Rightarrow> error + hit list" where
  "format_sequences scores motifs i j [] = Inr []"
| "format_sequences scores motifs i j (v # vs) =
     (case format_positions scores motifs i j 0 v of
        Inl e \<Rightarrow> Inl e
      | Inr hs \<Rightarrow>
          (case format_sequences scores motifs i (Suc j) vs of
             Inl e \<Rightarrow> Inl e
           | Inr hs' \<Rightarrow> Inr (hs @ hs')))"

text \<open>The loop over \<open>i\<close>, the motifs.\<close>

fun format_motifs ::
  "int list \<Rightarrow> int list list list \<Rightarrow> nat \<Rightarrow> int list list list \<Rightarrow> error + hit list" where
  "format_motifs scores motifs i [] = Inr []"
| "format_motifs scores motifs i (m # ms) =
     (case format_sequences scores motifs i 0 m of
        Inl e \<Rightarrow> Inl e
      | Inr hs \<Rightarrow>
          (case format_motifs scores motifs (Suc i) ms of
             Inl e \<Rightarrow> Inl e
           | Inr hs' \<Rightarrow> Inr (hs @ hs')))"

definition format_results :: "int list list list \<Rightarrow> int list \<Rightarrow> int list list list \<Rightarrow> error + hit list" where
  "format_results out_pre scores motifs = format_motifs scores motifs 0 out_pre"

text \<open>
  \<open>std::string::substr(pos, n)\<close> throws when \<open>pos\<close> is beyond the end of the string and
  returns at most \<open>n\<close> characters otherwise.
\<close>

definition substr :: "string \<Rightarrow> nat \<Rightarrow> nat \<Rightarrow> error + string" where
  "substr s pos n = (if pos > length s then Inl OutOfRange else Inr (take n (drop pos s)))"

text \<open>
  The position is the \<open>int\<close> \<open>res[2][i] - 1\<close> converted to \<open>size_t\<close>; a negative one
  would lie beyond the end of every string.
\<close>

definition substr_int :: "string \<Rightarrow> int \<Rightarrow> nat \<Rightarrow> error + string" where
  "substr_int s x n = (if x < 0 then Inl OutOfRange else substr s (nat x) n)"

definition get_match :: "string list \<Rightarrow> int list list list \<Rightarrow> hit \<Rightarrow> error + string" where
  "get_match seq_vecs motifs h =
     (case vec_at_int seq_vecs (hit_sequence h - 1) of
        Inl e \<Rightarrow> Inl e
      | Inr s \<Rightarrow>
          (case vec_at_int motifs (hit_motif h - 1) of
             Inl e \<Rightarrow> Inl e
           | Inr mo \<Rightarrow> substr_int s (hit_start h - 1) (length mo)))"

definition get_matches :: "hit list \<Rightarrow> string list \<Rightarrow> int list list list \<Rightarrow> error + string list" where
  "get_matches res seq_vecs motifs = for_each (get_match seq_vecs motifs) res"

subsection \<open>The entry point: scan\_sequences\_cpp\<close>

text \<open>
  The precondition loops: the loop over \<open>j\<close> (sequence sizes) inside the loop over
  \<open>i\<close> (motif sizes), with \<open>Rcpp::stop\<close> at the first sequence shorter than a motif.
\<close>

definition short_seq_error :: string where
  "short_seq_error = ''Found sequence(s) shorter than the width of the motif(s)''"

fun check_seq_sizes :: "int \<Rightarrow> int list \<Rightarrow> error + unit" where
  "check_seq_sizes motif_size [] = Inr ()"
| "check_seq_sizes motif_size (seq_size # seq_sizes) =
     (if seq_size < motif_size then Inl (Stop short_seq_error)
      else check_seq_sizes motif_size seq_sizes)"

fun check_motif_sizes :: "int list \<Rightarrow> int list \<Rightarrow> error + unit" where
  "check_motif_sizes [] seq_sizes = Inr ()"
| "check_motif_sizes (motif_size # motif_sizes) seq_sizes =
     (case check_seq_sizes motif_size seq_sizes of
        Inl e \<Rightarrow> Inl e
      | Inr u \<Rightarrow> check_motif_sizes motif_sizes seq_sizes)"

text \<open>
  One row of the returned data frame. The columns \<open>motif\<close> and \<open>motif.i\<close> both hold
  \<open>res[0]\<close>; the score is the fixed-point score divided by 1000 in \<open>double\<close>
  (\<open>scores2[i] /= 1000\<close>).
\<close>

record df_row =
  df_motif :: int
  df_sequence :: int
  df_start :: int
  df_stop :: int
  df_score :: real
  df_match :: string

definition make_row :: "hit \<Rightarrow> string \<Rightarrow> df_row" where
  "make_row h m =
     \<lparr>df_motif = hit_motif h, df_sequence = hit_sequence h, df_start = hit_start h,
      df_stop = hit_stop h, df_score = round_double (real_of_int (hit_score h) / 1000), df_match = m\<rparr>"

text \<open>
  A score matrix arrives as an R numeric matrix with one column per motif position; it
  is the list of its columns. \<open>score2_mats[i]\<close> holds the columns multiplied by 1000 in
  \<open>double\<close> and converted to \<open>int\<close>, \<open>motif_sizes[i]\<close> the number of columns.
\<close>

definition scan_sequences_cpp ::
  "real list list list \<Rightarrow> string list \<Rightarrow> int \<Rightarrow> string \<Rightarrow> real list \<Rightarrow> int \<Rightarrow> bool \<Rightarrow> bool
     \<Rightarrow> error + (string list \<times> df_row list)" where
  "scan_sequences_cpp score_mats seq_vecs k alph min_scores nthreads allow_nonfinite warnNA =
     (let min_scores2 = map (\<lambda>x. double_to_int (round_double (x * 1000))) min_scores;
          score2_mats = map (map (map (\<lambda>x. double_to_int (round_double (x * 1000))))) score_mats;
          motif_sizes = map (\<lambda>m. int (length m)) score_mats;
          seq_sizes = map (\<lambda>s. int (length s)) seq_vecs
      in case check_motif_sizes motif_sizes seq_sizes of
           Inl e \<Rightarrow> Inl e
         | Inr u \<Rightarrow>
             (case scan_sequences_cpp_internal score2_mats seq_vecs k alph nthreads warnNA of
                Inl e \<Rightarrow> Inl e
              | Inr (warnings, out_pre) \<Rightarrow>
                  (case format_results out_pre min_scores2 score2_mats of
                     Inl e \<Rightarrow> Inl e
                   | Inr res \<Rightarrow>
                       (case get_matches res seq_vecs score2_mats of
                          Inl e \<Rightarrow> Inl e
                        | Inr matches \<Rightarrow> Inr (warnings, map2 make_row res matches)))))"

section \<open>Properties\<close>

subsection \<open>Rounding to double\<close>

lemma round_even_of_int: "round_even (of_int n) = n"
  by (simp add: round_even_def)

lemma round_even_error: "\<bar>of_int (round_even x) - x\<bar> \<le> 1 / 2"
proof -
  have "of_int \<lfloor>x\<rfloor> \<le> x" "x < of_int \<lfloor>x\<rfloor> + 1" by linarith+
  then show ?thesis by (auto simp: round_even_def Let_def)
qed

lemma double_exponent_le:
  assumes "x \<noteq> 0" and "\<bar>x\<bar> < 2 powr of_int n" and "- 1022 \<le> n - 1"
  shows "double_exponent x \<le> n - 1"
proof -
  have "log 2 \<bar>x\<bar> < of_int n"
    using assms(1,2) by (simp add: log_less_iff)
  then have "\<lfloor>log 2 \<bar>x\<bar>\<rfloor> < n" by linarith
  with assms(3) show ?thesis by (simp add: double_exponent_def)
qed

lemma round_double_error:
  assumes "x \<noteq> 0"
  shows "\<bar>round_double x - x\<bar> \<le> 2 powr of_int (double_exponent x - 53)"
proof -
  define u :: real where "u = 2 powr of_int (double_exponent x - 52)"
  define r :: real where "r = of_int (round_even (x / u))"
  have u: "0 < u" by (simp add: u_def)
  have "\<bar>r - x / u\<bar> \<le> 1 / 2" unfolding r_def by (rule round_even_error)
  then have "\<bar>r - x / u\<bar> * u \<le> 1 / 2 * u"
    using u by (intro mult_right_mono) auto
  moreover have "\<bar>r - x / u\<bar> * u = \<bar>(r - x / u) * u\<bar>"
    using u by (simp add: abs_mult)
  moreover have "(r - x / u) * u = r * u - x"
    using u by (simp add: left_diff_distrib)
  moreover have "1 / 2 * u = 2 powr of_int (double_exponent x - 53)"
    by (simp add: u_def powr_diff)
  moreover have "round_double x = r * u"
    using assms by (simp add: round_double_def u_def r_def)
  ultimately show ?thesis by simp
qed

lemma round_double_dyadic:
  assumes "\<bar>m\<bar> < 2 ^ 53" and "- 1074 \<le> p"
  shows "round_double (of_int m * 2 powr of_int p) = of_int m * 2 powr of_int p"
proof (cases "m = 0")
  case True
  then show ?thesis by (simp add: round_double_def)
next
  case False
  define x :: real where "x = of_int m * 2 powr of_int p"
  have x0: "x \<noteq> 0" using False by (simp add: x_def)
  have "\<bar>x\<bar> = of_int \<bar>m\<bar> * 2 powr of_int p" by (simp add: x_def abs_mult)
  also have "\<dots> < 2 ^ 53 * 2 powr of_int p"
    using assms(1) by (intro mult_strict_right_mono) auto
  also have "\<dots> = 2 powr of_int (p + 53)"
    by (simp add: powr_add powr_realpow [symmetric])
  finally have "\<bar>x\<bar> < 2 powr of_int (p + 53)" .
  from double_exponent_le [OF x0 this] assms(2)
  have e: "double_exponent x \<le> p + 52" by simp
  define d where "d = nat (p + 52 - double_exponent x)"
  have d: "of_int p - of_int (double_exponent x - 52) = (real d)"
    using e by (simp add: d_def)
  have "x / 2 powr of_int (double_exponent x - 52) = of_int m * 2 powr (of_int p - of_int (double_exponent x - 52))"
    by (simp add: x_def powr_diff)
  also have "\<dots> = of_int (m * 2 ^ d)"
    unfolding d by (simp add: powr_realpow)
  finally have q: "x / 2 powr of_int (double_exponent x - 52) = of_int (m * 2 ^ d)" .
  have "round_double x = of_int (m * 2 ^ d) * 2 powr of_int (double_exponent x - 52)"
    using x0 unfolding round_double_def q round_even_of_int by simp
  also have "\<dots> = x"
    using q by (metis nonzero_eq_divide_eq powr_zero_eq_one powr_eq_0_iff zero_neq_numeral)
  finally show ?thesis by (simp add: x_def)
qed

lemma round_double_of_int: "\<bar>n\<bar> < 2 ^ 53 \<Longrightarrow> round_double (of_int n) = of_int n"
  using round_double_dyadic [of n 0] by simp

lemma double_exponent_eq:
  assumes "2 powr of_int e \<le> \<bar>x\<bar>" and "\<bar>x\<bar> < 2 powr of_int (e + 1)" and "- 1022 \<le> e"
  shows "double_exponent x = e"
proof -
  have x: "0 < \<bar>x\<bar>" using assms(1) by (smt (verit) powr_gt_zero)
  have "of_int e \<le> log 2 \<bar>x\<bar>" using assms(1) x by (simp add: le_log_iff)
  moreover have "log 2 \<bar>x\<bar> < of_int (e + 1)" using assms(2) x by (simp add: log_less_iff)
  ultimately have "\<lfloor>log 2 \<bar>x\<bar>\<rfloor> = e" by linarith
  with assms(3) show ?thesis by (simp add: double_exponent_def)
qed

lemma round_double_at:
  assumes u: "u = 2 powr of_int (e - 52)" and "2 ^ 52 * u \<le> \<bar>x\<bar>" and "\<bar>x\<bar> < 2 ^ 53 * u"
    and "- 1022 \<le> e"
  shows "round_double x = of_int (round_even (x / u)) * u"
proof -
  have a: "(2::real) ^ 52 * u = 2 powr of_int e"
    unfolding u by (simp add: powr_diff powr_realpow [symmetric])
  have b: "(2::real) ^ 53 * u = 2 powr of_int (e + 1)"
    unfolding u by (simp add: powr_diff powr_add powr_realpow [symmetric])
  have e: "double_exponent x = e"
    using assms(2,3,4) unfolding a b by (rule double_exponent_eq)
  have "x \<noteq> 0" using assms(2) unfolding a by (smt (verit) powr_gt_zero)
  then show ?thesis by (simp add: round_double_def e u)
qed

lemma round_double_ratio:
  assumes "\<bar>m\<bar> < 2 ^ 53" and "q \<le> 1074"
  shows "round_double (of_int m / 2 ^ q) = of_int m / 2 ^ q"
proof -
  have "(2::real) powr of_int (- int q) = 1 / 2 ^ q"
    by (simp add: powr_minus powr_realpow divide_simps)
  with round_double_dyadic [of m "- int q"] assms show ?thesis by simp
qed

lemma round_double_zero: "round_double 0 = 0"
  by (simp add: round_double_def)

lemma round_double_one: "round_double 1 = 1"
  using round_double_of_int [of 1] by simp

lemma round_double_numeral:
  "(numeral w :: int) < 2 ^ 53 \<Longrightarrow> round_double (numeral w) = numeral w"
  using round_double_of_int [of "numeral w"] by simp

lemma round_double_neg_numeral:
  "(numeral w :: int) < 2 ^ 53 \<Longrightarrow> round_double (- numeral w) = - numeral w"
  using round_double_of_int [of "- numeral w"] by simp

lemma double_to_int_of_int:
  "- (2 ^ 31) \<le> z \<Longrightarrow> z < 2 ^ 31 \<Longrightarrow> double_to_int (of_int z) = z"
  by (simp add: double_to_int_def)

text \<open>
  Three products and a quotient of the entry point. The \<open>double\<close> nearest to \<open>0.009\<close>
  is below \<open>0.009\<close>; its exact product with 1000 is below 9, the rounded product is 9.
  The two neighbouring \<open>double\<close> values at \<open>-0.117\<close> both have the rounded product
  \<open>-117\<close>, and \<open>-117 / 1000\<close> is the lower one of them.
\<close>

lemma round_double_examples:
  "round_double (5188146770730811 / 2 ^ 59 * 1000) = 9"
  "round_double (- (8430738502437568 / 2 ^ 56) * 1000) = - 117"
  "round_double (- (8430738502437569 / 2 ^ 56) * 1000) = - 117"
  "round_double (- 117 / 1000) = - (8430738502437569 / 2 ^ 56)"
proof -
  have u49: "(1 / 2 ^ 49 :: real) = 2 powr of_int (3 - 52)"
    and u46: "(1 / 2 ^ 46 :: real) = 2 powr of_int (6 - 52)"
    and u56: "(1 / 2 ^ 56 :: real) = 2 powr of_int (- 4 - 52)"
    by (simp_all add: powr_minus powr_realpow [symmetric] divide_simps)
  show "round_double (5188146770730811 / 2 ^ 59 * 1000) = 9"
    by (subst round_double_at [OF u49]) (simp_all add: round_even_def Let_def)
  show "round_double (- (8430738502437568 / 2 ^ 56) * 1000) = - 117"
    by (subst round_double_at [OF u46]) (simp_all add: round_even_def Let_def)
  show "round_double (- (8430738502437569 / 2 ^ 56) * 1000) = - 117"
    by (subst round_double_at [OF u46]) (simp_all add: round_even_def Let_def)
  show "round_double (- 117 / 1000) = - (8430738502437569 / 2 ^ 56)"
    by (subst round_double_at [OF u56]) (simp_all add: round_even_def Let_def)
qed

lemma scaled_threshold_examples:
  "double_to_int (round_double (5188146770730811 / 2 ^ 59 * 1000)) = 9"
  "\<lfloor>5188146770730811 / 2 ^ 59 * 1000 :: real\<rfloor> = 8"
  "double_to_int (round_double (- (8430738502437568 / 2 ^ 56) * 1000)) = - 117"
  "\<lceil>- (8430738502437568 / 2 ^ 56) * 1000 :: real\<rceil> = - 116"
  "double_to_int (round_double (3000000000 * 1000)) = - 2147483648"
  by (simp_all only: round_double_examples) (simp_all add: double_to_int_def round_double_numeral)

text \<open>
  A step of the recoding loop is exact as long as the sum stays in the range of
  \<open>int\<close>.
\<close>

lemma higher_k_add_exact:
  assumes "\<bar>n ^ e\<bar> < 2 ^ 53" and "\<bar>x * n ^ e\<bar> < 2 ^ 53"
    and "- (2 ^ 31) \<le> tmp + x * n ^ e" and "tmp + x * n ^ e < 2 ^ 31"
  shows "higher_k_add tmp x n e = tmp + x * n ^ e"
proof -
  have p: "round_double (of_int (n ^ e)) = of_int (n ^ e)"
    using assms(1) by (rule round_double_of_int)
  have "\<bar>real_of_int (n ^ e)\<bar> < 2 ^ 53"
    using assms(1) by (metis of_int_abs of_int_less_numeral_power_cancel_iff)
  also have "\<dots> < (2::real) ^ 1024" by simp
  finally have fin: "\<not> 2 ^ 1024 \<le> \<bar>real_of_int (n ^ e)\<bar>" by simp
  have prod: "round_double (of_int x * of_int (n ^ e)) = of_int (x * n ^ e)"
    using round_double_of_int [OF assms(2)] by simp
  have "\<bar>tmp + x * n ^ e\<bar> < 2 ^ 53"
    using assms(3,4) by simp
  then have sum: "round_double (of_int tmp + of_int (x * n ^ e)) = of_int (tmp + x * n ^ e)"
    using round_double_of_int [of "tmp + x * n ^ e"] by simp
  have "higher_k_add tmp x n e =
        double_to_int (round_double (of_int tmp + round_double (of_int x * of_int (n ^ e))))"
    unfolding higher_k_add_def Let_def p by (simp only: fin simp_thms if_False)
  also have "\<dots> = double_to_int (of_int (tmp + x * n ^ e))"
    by (simp only: prod sum)
  also have "\<dots> = tmp + x * n ^ e"
    using assms(3,4) by (rule double_to_int_of_int)
  finally show ?thesis .
qed

subsection \<open>Evaluation\<close>

lemmas loop_simps =
  higher_k_NA_window.simps higher_k_window.simps higher_k_NA_positions.simps
  higher_k_positions.simps scan_loop_NA.simps scan_loop.simps

lemmas scan_defs =
  scan_sequences_cpp_def scan_sequences_cpp_internal_def scan_single_seq_def
  scan_single_seq_NA_def deal_with_higher_k_def deal_with_higher_k_NA_def higher_k_seq_def
  higher_k_NA_seq_def vec_set_def size_t_of_def vec_at_def vec_at_int_def double_to_int_def
  format_results_def get_matches_def get_match_def substr_def substr_int_def make_row_def
  Let_def na_warning_def short_seq_error_def
  higher_k_add_def round_double_zero round_double_one round_double_numeral
  round_double_neg_numeral

subsection \<open>The two window scorers on streams without sentinel\<close>

lemma vec_at_Inr_mem: "vec_at v i = Inr x \<Longrightarrow> x \<in> set v"
  by (auto simp: vec_at_def split: if_splits)

lemma window_score_agree:
  "\<forall>x \<in> set sequence. 0 \<le> x \<Longrightarrow>
     window_score_NA rows sequence i j tmp = window_score rows sequence i j tmp"
proof (induction rows arbitrary: j tmp)
  case Nil
  show ?case by simp
next
  case (Cons row rows)
  show ?case
  proof (cases "vec_at sequence (i + j)")
    case (Inl e)
    then show ?thesis by simp
  next
    case (Inr x)
    with Cons.prems have "0 \<le> x" using vec_at_Inr_mem by fastforce
    with Inr Cons show ?thesis by (simp split: sum.splits)
  qed
qed

lemma scan_loop_agree:
  "\<forall>x \<in> set sequence. 0 \<le> x \<Longrightarrow>
     scan_loop_NA motif sequence bound i result = scan_loop motif sequence bound i result"
proof (induction motif sequence bound i result rule: scan_loop.induct)
  case (1 motif sequence bound i result)
  show ?case
    using 1
    by (subst scan_loop_NA.simps, subst scan_loop.simps)
       (auto simp: window_score_agree split: sum.splits)
qed

text \<open>
  C5. An encoded stream holds symbol indices, which are not negative, and the sentinel
  \<open>-1\<close> for unrecognized characters, so all its symbols are at least \<open>-1\<close>. On an
  encoded stream without the sentinel the sentinel-aware scorer \<open>scan_single_seq_NA\<close>
  and the strict scorer \<open>scan_single_seq\<close> return the same result for every motif and
  every \<open>k\<close>: the same score vector, or the same failure.
\<close>

theorem scan_variants_agree:
  assumes "\<forall>x \<in> set sequence. - 1 \<le> x" and "- 1 \<notin> set sequence"
  shows "scan_single_seq_NA motif sequence k = scan_single_seq motif sequence k"
proof -
  have "0 \<le> x" if "x \<in> set sequence" for x
  proof -
    from that assms have "- 1 \<le> x" "x \<noteq> - 1" by auto
    then show ?thesis by simp
  qed
  then have "\<forall>x \<in> set sequence. 0 \<le> x" by blast
  then show ?thesis
    by (simp add: scan_single_seq_NA_def scan_single_seq_def scan_loop_agree)
qed

theorem scan_variants_agree_witness:
  "list_all (\<lambda>x. - 1 \<le> x) [0, 1 :: int] \<and> - 1 \<notin> set [0, 1 :: int] \<and>
   scan_single_seq_NA [[5, 6], [7, 8]] [0, 1] 1 = scan_single_seq [[5, 6], [7, 8]] [0, 1] 1 \<and>
   scan_single_seq [[5, 6], [7, 8]] [0, 1] 1 = Inr [13]"
proof -
  have h: "\<forall>x \<in> set [0, 1 :: int]. - 1 \<le> x" "- 1 \<notin> set [0, 1 :: int]" by simp_all
  from scan_variants_agree [OF h, of "[[5, 6], [7, 8]]" 1] show ?thesis
    by (simp add: scan_defs loop_simps)
qed

subsection \<open>The recoding loops compute the composite value\<close>

lemma vec_at_in: "i < length v \<Longrightarrow> vec_at v i = Inr (v ! i)"
  by (simp add: vec_at_def)

lemma higher_k_add_step:
  assumes "0 \<le> x" and "x < n" and "0 \<le> tmp" and "tmp + n ^ Suc e \<le> n ^ K"
    and "n ^ K \<le> 2 ^ 31"
  shows "higher_k_add tmp x n e = tmp + x * n ^ e"
    and "0 \<le> tmp + x * n ^ e"
    and "tmp + x * n ^ e + n ^ e \<le> n ^ K"
proof -
  have n: "1 \<le> n" using assms(1,2) by linarith
  then have pe: "1 \<le> n ^ e" by simp
  have "(x + 1) * n ^ e \<le> n * n ^ e"
    using assms(2) pe by (intro mult_right_mono) auto
  then have "x * n ^ e + n ^ e \<le> n ^ Suc e" by (simp add: algebra_simps)
  with assms(4) show up: "tmp + x * n ^ e + n ^ e \<le> n ^ K" by linarith
  have nonneg: "0 \<le> x * n ^ e" using assms(1) pe by simp
  with assms(3) show "0 \<le> tmp + x * n ^ e" by linarith
  have small: "tmp + x * n ^ e + n ^ e \<le> 2 ^ 31" using up assms(5) by linarith
  have big: "(2::int) ^ 31 < 2 ^ 53" "(0::int) < 2 ^ 31" by simp_all
  show "higher_k_add tmp x n e = tmp + x * n ^ e"
  proof (rule higher_k_add_exact)
    show "\<bar>n ^ e\<bar> < 2 ^ 53" using pe small nonneg assms(3) big by linarith
    show "\<bar>x * n ^ e\<bar> < 2 ^ 53" using pe small nonneg assms(3) big by linarith
    show "- (2 ^ 31) \<le> tmp + x * n ^ e" using nonneg assms(3) big by linarith
    show "tmp + x * n ^ e < 2 ^ 31" using pe small by linarith
  qed
qed

lemma higher_k_window_sum:
  "j + nat k \<le> length s \<Longrightarrow> n ^ nat k \<le> 2 ^ 31 \<Longrightarrow>
   \<forall>c. b \<le> c \<and> c < nat k \<longrightarrow> 0 \<le> s ! (j + c) \<and> s ! (j + c) < n \<Longrightarrow>
   0 \<le> tmp \<Longrightarrow> tmp + n ^ (nat k - b) \<le> n ^ nat k \<Longrightarrow>
     higher_k_window s k n j b tmp =
       Inr (tmp + (\<Sum>c = b..<nat k. s ! (j + c) * n ^ (nat k - 1 - c)))"
proof (induction s k n j b tmp rule: higher_k_window.induct)
  case (1 s k n j b tmp)
  note in_range = "1.prems"(1) and npow = "1.prems"(2) and sym = "1.prems"(3)
    and tmp0 = "1.prems"(4) and inv = "1.prems"(5)
  define F where "F c = s ! (j + c) * n ^ (nat k - 1 - c)" for c
  show ?case
  proof (cases "int b < k")
    case True
    then have lt: "b < nat k" by simp
    with in_range have at: "vec_at s (j + b) = Inr (s ! (j + b))" by (simp add: vec_at_in)
    have e: "nat (k - int b - 1) = nat k - 1 - b" using True by simp
    have Ke: "nat k - b = Suc (nat k - 1 - b)" using lt by simp
    have Ke': "nat k - Suc b = nat k - 1 - b" by simp
    from sym lt have x: "0 \<le> s ! (j + b)" "s ! (j + b) < n" by auto
    from inv have inv': "tmp + n ^ Suc (nat k - 1 - b) \<le> n ^ nat k" by (simp only: Ke)
    note st = higher_k_add_step [OF x tmp0 inv' npow]
    have step: "higher_k_add tmp (s ! (j + b)) n (nat (k - int b - 1)) = tmp + F b"
      using st(1) by (simp only: e F_def)
    have sym': "\<forall>c. Suc b \<le> c \<and> c < nat k \<longrightarrow> 0 \<le> s ! (j + c) \<and> s ! (j + c) < n"
      using sym by auto
    have tmp0': "0 \<le> higher_k_add tmp (s ! (j + b)) n (nat (k - int b - 1))"
      using st(2) by (simp only: step F_def)
    have inv'': "higher_k_add tmp (s ! (j + b)) n (nat (k - int b - 1)) + n ^ (nat k - Suc b)
                   \<le> n ^ nat k"
      using st(3) by (simp only: step F_def Ke')
    have "higher_k_window s k n j b tmp =
          higher_k_window s k n j (Suc b) (higher_k_add tmp (s ! (j + b)) n (nat (k - int b - 1)))"
      using True at by (subst higher_k_window.simps) (simp only: if_True sum.case)
    also have "\<dots> = Inr (tmp + F b + (\<Sum>c = Suc b..<nat k. F c))"
      using "1.IH" [OF True at in_range npow sym' tmp0' inv''] by (simp only: step F_def)
    also have "\<dots> = Inr (tmp + (\<Sum>c = b..<nat k. F c))"
      using lt by (simp add: sum.atLeast_Suc_lessThan)
    finally show ?thesis by (simp only: F_def)
  next
    case False
    then have "nat k \<le> b" by simp
    then show ?thesis using False by (subst higher_k_window.simps) simp
  qed
qed

lemma higher_k_NA_window_sum:
  "j + nat k \<le> length s \<Longrightarrow> n ^ nat k \<le> 2 ^ 31 \<Longrightarrow>
   \<forall>c. b \<le> c \<and> c < nat k \<longrightarrow> s ! (j + c) < n \<Longrightarrow>
   0 \<le> tmp \<Longrightarrow> tmp + n ^ (nat k - b) \<le> n ^ nat k \<Longrightarrow>
     higher_k_NA_window s k n j b tmp =
       Inr (if \<exists>c. b \<le> c \<and> c < nat k \<and> s ! (j + c) < 0 then - 1
            else tmp + (\<Sum>c = b..<nat k. s ! (j + c) * n ^ (nat k - 1 - c)))"
proof (induction s k n j b tmp rule: higher_k_NA_window.induct)
  case (1 s k n j b tmp)
  note in_range = "1.prems"(1) and npow = "1.prems"(2) and sym = "1.prems"(3)
    and tmp0 = "1.prems"(4) and inv = "1.prems"(5)
  define F where "F c = s ! (j + c) * n ^ (nat k - 1 - c)" for c
  define E where "E b \<longleftrightarrow> (\<exists>c. b \<le> c \<and> c < nat k \<and> s ! (j + c) < 0)" for b
  show ?case
  proof (cases "int b < k")
    case True
    then have lt: "b < nat k" by simp
    with in_range have at: "vec_at s (j + b) = Inr (s ! (j + b))" by (simp add: vec_at_in)
    show ?thesis
    proof (cases "s ! (j + b) < 0")
      case neg: True
      then have "\<exists>c. b \<le> c \<and> c < nat k \<and> s ! (j + c) < 0" using lt by blast
      then show ?thesis using True at neg by (subst higher_k_NA_window.simps) simp
    next
      case nonneg: False
      have e: "nat (k - int b - 1) = nat k - 1 - b" using True by simp
      have Ke: "nat k - b = Suc (nat k - 1 - b)" using lt by simp
      have Ke': "nat k - Suc b = nat k - 1 - b" by simp
      from sym lt nonneg have x: "0 \<le> s ! (j + b)" "s ! (j + b) < n" by auto
      from inv have inv': "tmp + n ^ Suc (nat k - 1 - b) \<le> n ^ nat k" by (simp only: Ke)
      note st = higher_k_add_step [OF x tmp0 inv' npow]
      have step: "higher_k_add tmp (s ! (j + b)) n (nat (k - int b - 1)) = tmp + F b"
        using st(1) by (simp only: e F_def)
      have sym': "\<forall>c. Suc b \<le> c \<and> c < nat k \<longrightarrow> s ! (j + c) < n"
        using sym by auto
      have tmp0': "0 \<le> higher_k_add tmp (s ! (j + b)) n (nat (k - int b - 1))"
        using st(2) by (simp only: step F_def)
      have inv'': "higher_k_add tmp (s ! (j + b)) n (nat (k - int b - 1)) + n ^ (nat k - Suc b)
                     \<le> n ^ nat k"
        using st(3) by (simp only: step F_def Ke')
      have ex: "E b \<longleftrightarrow> E (Suc b)"
        unfolding E_def using nonneg by (metis Suc_leI le_neq_implies_less Suc_leD)
      have "higher_k_NA_window s k n j b tmp =
            higher_k_NA_window s k n j (Suc b)
              (higher_k_add tmp (s ! (j + b)) n (nat (k - int b - 1)))"
        using True at nonneg
        by (subst higher_k_NA_window.simps) (simp only: if_True if_False sum.case)
      also have "\<dots> = Inr (if E (Suc b) then - 1 else tmp + F b + (\<Sum>c = Suc b..<nat k. F c))"
        using "1.IH" [OF True at nonneg in_range npow sym' tmp0' inv'']
        by (simp only: step F_def E_def)
      also have "\<dots> = Inr (if E b then - 1 else tmp + (\<Sum>c = b..<nat k. F c))"
        using lt by (simp add: sum.atLeast_Suc_lessThan ex)
      finally show ?thesis by (simp only: F_def E_def)
    qed
  next
    case False
    then have "nat k \<le> b" by simp
    then show ?thesis using False by (subst higher_k_NA_window.simps) auto
  qed
qed

lemma higher_k_window_composite:
  "j + nat k \<le> length s \<Longrightarrow> n ^ nat k \<le> 2 ^ 31 \<Longrightarrow>
   \<forall>c < nat k. 0 \<le> s ! (j + c) \<and> s ! (j + c) < n \<Longrightarrow>
     higher_k_window s k n j 0 0 = Inr (composite_value s k n j)"
  by (simp add: higher_k_window_sum composite_value_def atLeast0LessThan)

lemma higher_k_NA_window_composite:
  "j + nat k \<le> length s \<Longrightarrow> n ^ nat k \<le> 2 ^ 31 \<Longrightarrow>
   \<forall>c < nat k. s ! (j + c) < n \<Longrightarrow>
     higher_k_NA_window s k n j 0 0 =
       Inr (if \<exists>c < nat k. s ! (j + c) < 0 then - 1 else composite_value s k n j)"
  by (auto simp add: higher_k_NA_window_sum composite_value_def atLeast0LessThan)


lemma composite_value_update:
  "j < p \<Longrightarrow> composite_value (s[j := v]) k n p = composite_value s k n p"
  by (simp add: composite_value_def)

lemma higher_k_positions_ok:
  "bound + nat k \<le> length s + 1 \<Longrightarrow> 1 \<le> k \<Longrightarrow> n ^ nat k \<le> 2 ^ 31 \<Longrightarrow>
   \<forall>p. j \<le> p \<and> p < length s \<longrightarrow> 0 \<le> s ! p \<and> s ! p < n \<Longrightarrow>
     \<exists>s'. higher_k_positions k n bound j s = Inr s' \<and> length s' = length s \<and>
       (\<forall>p < length s. s' ! p = (if j \<le> p \<and> p < bound then composite_value s k n p else s ! p))"
proof (induction k n bound j s rule: higher_k_positions.induct)
  case (1 k n bound j s)
  note npow = "1.prems"(3) and sym = "1.prems"(4)
  show ?case
  proof (cases "j < bound")
    case True
    with "1.prems" have in_range: "j + nat k \<le> length s" and j: "j < length s" by auto
    define tmp where "tmp = composite_value s k n j"
    have "\<forall>c < nat k. 0 \<le> s ! (j + c) \<and> s ! (j + c) < n"
      using sym in_range by auto
    then have w: "higher_k_window s k n j 0 0 = Inr tmp"
      using in_range npow by (simp add: higher_k_window_composite tmp_def)
    have u: "vec_set s j tmp = Inr (s[j := tmp])" using j by (simp add: vec_set_def)
    have "bound + nat k \<le> length (s[j := tmp]) + 1" using "1.prems" by simp
    moreover have "\<forall>p. Suc j \<le> p \<and> p < length (s[j := tmp]) \<longrightarrow>
                     0 \<le> (s[j := tmp]) ! p \<and> (s[j := tmp]) ! p < n"
      using sym by auto
    ultimately obtain s' where s': "higher_k_positions k n bound (Suc j) (s[j := tmp]) = Inr s'"
        "length s' = length s"
        "\<forall>p < length s. s' ! p =
           (if Suc j \<le> p \<and> p < bound then composite_value (s[j := tmp]) k n p
            else (s[j := tmp]) ! p)"
      using "1.IH" [OF True w u _ "1.prems"(2) npow] by auto
    have run: "higher_k_positions k n bound j s = Inr s'"
      using True w u s'(1) by (subst higher_k_positions.simps) simp
    have "s' ! p = (if j \<le> p \<and> p < bound then composite_value s k n p else s ! p)"
      if "p < length s" for p
    proof (cases "p = j")
      case True
      with s'(3) that j have "s' ! p = tmp" by simp
      then show ?thesis using True \<open>j < bound\<close> by (simp add: tmp_def)
    next
      case False
      with s'(3) that show ?thesis by (auto simp: composite_value_update)
    qed
    with run s'(2) show ?thesis by blast
  next
    case False
    then show ?thesis by (subst higher_k_positions.simps) simp
  qed
qed

lemma higher_k_NA_positions_ok:
  "bound + nat k \<le> length s + 1 \<Longrightarrow> 1 \<le> k \<Longrightarrow> n ^ nat k \<le> 2 ^ 31 \<Longrightarrow>
   \<forall>p. j \<le> p \<and> p < length s \<longrightarrow> s ! p < n \<Longrightarrow>
     \<exists>s'. higher_k_NA_positions k n bound j s = Inr s' \<and> length s' = length s \<and>
       (\<forall>p < length s. s' ! p =
          (if j \<le> p \<and> p < bound
           then (if \<exists>c < nat k. s ! (p + c) < 0 then - 1 else composite_value s k n p)
           else s ! p))"
proof (induction k n bound j s rule: higher_k_NA_positions.induct)
  case (1 k n bound j s)
  note npow = "1.prems"(3) and sym = "1.prems"(4)
  show ?case
  proof (cases "j < bound")
    case True
    with "1.prems" have in_range: "j + nat k \<le> length s" and j: "j < length s" by auto
    define tmp where "tmp = (if \<exists>c < nat k. s ! (j + c) < 0 then - 1 else composite_value s k n j)"
    have "\<forall>c < nat k. s ! (j + c) < n"
      using sym in_range by auto
    then have w: "higher_k_NA_window s k n j 0 0 = Inr tmp"
      using in_range npow by (simp only: higher_k_NA_window_composite tmp_def)
    have u: "vec_set s j tmp = Inr (s[j := tmp])" using j by (simp add: vec_set_def)
    have "bound + nat k \<le> length (s[j := tmp]) + 1" using "1.prems" by simp
    moreover have "\<forall>p. Suc j \<le> p \<and> p < length (s[j := tmp]) \<longrightarrow> (s[j := tmp]) ! p < n"
      using sym by auto
    ultimately obtain s' where s': "higher_k_NA_positions k n bound (Suc j) (s[j := tmp]) = Inr s'"
        "length s' = length s"
        "\<forall>p < length s. s' ! p =
           (if Suc j \<le> p \<and> p < bound
            then (if \<exists>c < nat k. (s[j := tmp]) ! (p + c) < 0 then - 1
                  else composite_value (s[j := tmp]) k n p)
            else (s[j := tmp]) ! p)"
      using "1.IH" [OF True w u _ "1.prems"(2) npow] by auto
    have run: "higher_k_NA_positions k n bound j s = Inr s'"
      using True w u s'(1) by (subst higher_k_NA_positions.simps) simp
    have "s' ! p =
          (if j \<le> p \<and> p < bound
           then (if \<exists>c < nat k. s ! (p + c) < 0 then - 1 else composite_value s k n p)
           else s ! p)"
      if "p < length s" for p
    proof (cases "p = j")
      case True
      with s'(3) that j have "s' ! p = tmp" by simp
      then show ?thesis using True \<open>j < bound\<close> by (auto simp: tmp_def)
    next
      case False
      with s'(3) that show ?thesis by (auto simp: composite_value_update)
    qed
    with run s'(2) show ?thesis by blast
  next
    case False
    then show ?thesis by (subst higher_k_NA_positions.simps) simp
  qed
qed

subsection \<open>Loops over vectors, and one stream recoded\<close>

lemma for_each_Cons_Inr:
  "for_each f (x # xs) = Inr zs \<longleftrightarrow>
     (\<exists>y ys. zs = y # ys \<and> f x = Inr y \<and> for_each f xs = Inr ys)"
  by (cases "f x"; cases "for_each f xs") auto

lemma for_each_Inr_iff:
  "for_each f xs = Inr ys \<longleftrightarrow>
     length ys = length xs \<and> (\<forall>i < length xs. f (xs ! i) = Inr (ys ! i))"
proof (induction xs arbitrary: ys)
  case Nil
  show ?case by auto
next
  case (Cons x xs)
  show ?case
  proof (cases ys)
    case Nil
    then show ?thesis by (simp del: for_each.simps add: for_each_Cons_Inr)
  next
    case ys: (Cons y ys')
    show ?thesis
      unfolding ys for_each_Cons_Inr
      by (auto simp del: for_each.simps simp add: Cons.IH All_less_Suc2)
  qed
qed

lemma for_each_Inl: "for_each f xs = Inl e \<Longrightarrow> \<exists>x \<in> set xs. f x = Inl e"
  by (induction xs) (auto split: sum.splits)

lemma for_each_total:
  "(\<And>x. x \<in> set xs \<Longrightarrow> \<exists>y. f x = Inr y) \<Longrightarrow> \<exists>ys. for_each f xs = Inr ys"
proof (induction xs)
  case Nil
  show ?case by simp
next
  case (Cons x xs)
  then obtain y ys where "f x = Inr y" "for_each f xs = Inr ys" by (meson list.set_intros)
  then show ?case by simp
qed

lemma size_t_of_id: "0 \<le> x \<Longrightarrow> x < 2 ^ 64 \<Longrightarrow> size_t_of x = nat x"
  by (simp add: size_t_of_def)

lemma higher_k_seq_ok:
  assumes "1 \<le> k" and "nat k \<le> length s + 1" and "length s < 2 ^ 64"
    and "n ^ nat k \<le> 2 ^ 31" and "\<forall>x \<in> set s. 0 \<le> x \<and> x < n"
  shows "\<exists>r. higher_k_seq k n s = Inr r \<and> length r = length s \<and>
       (\<forall>j < length s. r ! j = (if j + nat k \<le> length s then composite_value s k n j else s ! j))"
proof -
  have "int (length s) < 2 ^ 64" using assms(3) by simp
  then have "int (length s) - k + 1 < 2 ^ 64" using assms by linarith
  moreover have "0 \<le> int (length s) - k + 1" using assms by linarith
  ultimately have b: "size_t_of (int (length s) - k + 1) = length s + 1 - nat k"
    using assms by (simp add: size_t_of_id nat_diff_distrib nat_add_distrib)
  have le: "(length s + 1 - nat k) + nat k \<le> length s + 1" using assms by simp
  have sym: "\<forall>p. 0 \<le> p \<and> p < length s \<longrightarrow> 0 \<le> s ! p \<and> s ! p < n"
    using assms(5) by simp
  from higher_k_positions_ok [OF le assms(1) assms(4) sym]
  obtain r where r: "higher_k_positions k n (length s + 1 - nat k) 0 s = Inr r"
      "length r = length s"
      "\<forall>p<length s. r ! p = (if 0 \<le> p \<and> p < length s + 1 - nat k then composite_value s k n p else s ! p)"
    by blast
  have "(p < length s + 1 - nat k) = (p + nat k \<le> length s)" for p using assms by auto
  with r show ?thesis unfolding higher_k_seq_def b by auto
qed

lemma higher_k_NA_seq_ok:
  assumes "1 \<le> k" and "nat k \<le> length s + 1" and "length s < 2 ^ 64"
    and "n ^ nat k \<le> 2 ^ 31" and "\<forall>x \<in> set s. x < n"
  shows "\<exists>r. higher_k_NA_seq k n s = Inr r \<and> length r = length s \<and>
       (\<forall>j < length s. r ! j =
          (if j + nat k \<le> length s
           then (if \<exists>c < nat k. s ! (j + c) < 0 then - 1 else composite_value s k n j)
           else s ! j))"
proof -
  have "int (length s) < 2 ^ 64" using assms(3) by simp
  then have "int (length s) - k + 1 < 2 ^ 64" using assms by linarith
  moreover have "0 \<le> int (length s) - k + 1" using assms by linarith
  ultimately have b: "size_t_of (int (length s) - k + 1) = length s + 1 - nat k"
    using assms by (simp add: size_t_of_id nat_diff_distrib nat_add_distrib)
  have le: "(length s + 1 - nat k) + nat k \<le> length s + 1" using assms by simp
  have sym: "\<forall>p. 0 \<le> p \<and> p < length s \<longrightarrow> s ! p < n"
    using assms(5) by simp
  from higher_k_NA_positions_ok [OF le assms(1) assms(4) sym]
  obtain r where r: "higher_k_NA_positions k n (length s + 1 - nat k) 0 s = Inr r"
      "length r = length s"
      "\<forall>p<length s. r ! p =
          (if 0 \<le> p \<and> p < length s + 1 - nat k
           then (if \<exists>c < nat k. s ! (p + c) < 0 then - 1 else composite_value s k n p)
           else s ! p)"
    by blast
  have "(p < length s + 1 - nat k) = (p + nat k \<le> length s)" for p using assms by auto
  with r show ?thesis unfolding higher_k_NA_seq_def b by auto
qed


subsection \<open>Higher-order recoding\<close>

text \<open>
  C8, as the code has it. The composite value is not always what the recoders write.
  With four letters and \<open>k = 16\<close> the window \<open>3, 0, \<dots>, 0\<close> has the composite value
  \<open>3 * 4 ^ 15\<close>, which is above the largest \<open>int\<close>: the conversion of the sum to
  \<open>int\<close> gives \<open>- 2 ^ 31\<close>. A stream with fewer than \<open>k - 1\<close> symbols makes the loop
  bound \<open>size() - k + 1\<close> wrap around, and the recoders read outside the vector.
\<close>

theorem deal_with_higher_k_counterexample:
  "deal_with_higher_k [[3, 0, 0, 0, 0, 0, 0, 0, 0, 0, 0, 0, 0, 0, 0, 0]] 16 4 =
     Inr [[- 2147483648, 0, 0, 0, 0, 0, 0, 0, 0, 0, 0, 0, 0, 0, 0, 0]] \<and>
   composite_value [3, 0, 0, 0, 0, 0, 0, 0, 0, 0, 0, 0, 0, 0, 0, 0] 16 4 0 = 3221225472 \<and>
   deal_with_higher_k [[0]] 3 2 = Inl OutOfBounds \<and>
   deal_with_higher_k_NA [[0]] 3 2 = Inl OutOfBounds"
proof -
  have c: "composite_value [3, 0, 0, 0, 0, 0, 0, 0, 0, 0, 0, 0, 0, 0, 0, 0] 16 4 0 = 3221225472"
    by (simp add: composite_value_def lessThan_Suc eval_nat_numeral)
  have a: "deal_with_higher_k [[3, 0, 0, 0, 0, 0, 0, 0, 0, 0, 0, 0, 0, 0, 0, 0]] 16 4 =
     Inr [[- 2147483648, 0, 0, 0, 0, 0, 0, 0, 0, 0, 0, 0, 0, 0, 0, 0]]"
    by (simp add: scan_defs loop_simps)
  have b: "deal_with_higher_k [[0]] 3 2 = Inl OutOfBounds"
    "deal_with_higher_k_NA [[0]] 3 2 = Inl OutOfBounds"
    by (simp_all add: scan_defs loop_simps)
  from a b c show ?thesis by (intro conjI)
qed

text \<open>
  C8 (amended). For every \<open>k > 1\<close>, every alphabet size with \<open>|alphabet| ^ k \<le> 2 ^ 31\<close>
  (every composite value fits into \<open>int\<close>) and all encoded streams (symbols from \<open>-1\<close>
  to \<open>|alphabet| - 1\<close>) with at least \<open>k - 1\<close> symbols, the recoders return streams of
  the same lengths. On streams without sentinel the strict recoder \<open>deal_with_higher_k\<close>
  writes at the start \<open>j\<close> of every \<open>k\<close>-window (\<open>j + k \<le> len\<close>) the composite value of
  the \<open>k\<close> symbols of the input stream that start at \<open>j\<close>. The sentinel-aware recoder
  \<open>deal_with_higher_k_NA\<close> writes \<open>-1\<close> there when a symbol of the window is the
  sentinel \<open>-1\<close>, and the composite value when the window holds symbol indices only.
  Both leave the positions after the first \<open>len - k + 1\<close> as they were.
\<close>

theorem deal_with_higher_k_composite:
  assumes "1 < k" and "let_len ^ nat k \<le> 2 ^ 31"
    and "\<forall>s \<in> set seq_ints. nat k \<le> length s + 1 \<and> length s < 2 ^ 64 \<and>
           (\<forall>x \<in> set s. - 1 \<le> x \<and> x < let_len)"
  shows
    "((\<forall>s \<in> set seq_ints. - 1 \<notin> set s) \<longrightarrow>
      (\<exists>out. deal_with_higher_k seq_ints k let_len = Inr out \<and>
        length out = length seq_ints \<and>
        (\<forall>i < length seq_ints. length (out ! i) = length (seq_ints ! i) \<and>
           (\<forall>j < length (seq_ints ! i).
              if j + nat k \<le> length (seq_ints ! i)
              then out ! i ! j = composite_value (seq_ints ! i) k let_len j
              else out ! i ! j = seq_ints ! i ! j)))) \<and>
     (\<exists>out. deal_with_higher_k_NA seq_ints k let_len = Inr out \<and>
        length out = length seq_ints \<and>
        (\<forall>i < length seq_ints. length (out ! i) = length (seq_ints ! i) \<and>
           (\<forall>j < length (seq_ints ! i).
              if j + nat k \<le> length (seq_ints ! i)
              then ((\<exists>b < nat k. seq_ints ! i ! (j + b) = - 1) \<longrightarrow> out ! i ! j = - 1) \<and>
                   ((\<forall>b < nat k. 0 \<le> seq_ints ! i ! (j + b)) \<longrightarrow>
                      out ! i ! j = composite_value (seq_ints ! i) k let_len j)
              else out ! i ! j = seq_ints ! i ! j)))"
proof (rule conjI, rule impI)
  assume clean: "\<forall>s \<in> set seq_ints. - 1 \<notin> set s"
  have k: "1 \<le> k" using assms(1) by simp
  have hyp: "nat k \<le> length s + 1" "length s < 2 ^ 64" "\<forall>x \<in> set s. 0 \<le> x \<and> x < let_len"
    if "s \<in> set seq_ints" for s
  proof -
    show "nat k \<le> length s + 1" "length s < 2 ^ 64" using assms(3) that by auto
    have "0 \<le> x \<and> x < let_len" if "x \<in> set s" for x
    proof -
      from assms(3) \<open>s \<in> set seq_ints\<close> that have "- 1 \<le> x" "x < let_len" by auto
      moreover from clean \<open>s \<in> set seq_ints\<close> that have "x \<noteq> - 1" by auto
      ultimately show ?thesis by simp
    qed
    then show "\<forall>x \<in> set s. 0 \<le> x \<and> x < let_len" by blast
  qed
  have "\<exists>y. higher_k_seq k let_len s = Inr y" if "s \<in> set seq_ints" for s
    using higher_k_seq_ok [OF k hyp(1,2) [OF that] assms(2) hyp(3) [OF that]] by blast
  then obtain out where out: "for_each (higher_k_seq k let_len) seq_ints = Inr out"
    using for_each_total by blast
  then have len: "length out = length seq_ints"
    and each: "\<And>i. i < length seq_ints \<Longrightarrow> higher_k_seq k let_len (seq_ints ! i) = Inr (out ! i)"
    by (simp_all add: for_each_Inr_iff)
  have "length (out ! i) = length (seq_ints ! i) \<and>
        (\<forall>j < length (seq_ints ! i).
           if j + nat k \<le> length (seq_ints ! i)
           then out ! i ! j = composite_value (seq_ints ! i) k let_len j
           else out ! i ! j = seq_ints ! i ! j)"
    if i: "i < length seq_ints" for i
  proof -
    have mem: "seq_ints ! i \<in> set seq_ints" using i by simp
    from higher_k_seq_ok [OF k hyp(1,2) [OF mem] assms(2) hyp(3) [OF mem]] each [OF i]
    show ?thesis by auto
  qed
  with out len show "\<exists>out. deal_with_higher_k seq_ints k let_len = Inr out \<and>
        length out = length seq_ints \<and>
        (\<forall>i < length seq_ints. length (out ! i) = length (seq_ints ! i) \<and>
           (\<forall>j < length (seq_ints ! i).
              if j + nat k \<le> length (seq_ints ! i)
              then out ! i ! j = composite_value (seq_ints ! i) k let_len j
              else out ! i ! j = seq_ints ! i ! j))"
    unfolding deal_with_higher_k_def by blast
next
  have k: "1 \<le> k" using assms(1) by simp
  have hyp: "nat k \<le> length s + 1" "length s < 2 ^ 64" "\<forall>x \<in> set s. x < let_len"
    if "s \<in> set seq_ints" for s
    using assms(3) that by auto
  have "\<exists>y. higher_k_NA_seq k let_len s = Inr y" if "s \<in> set seq_ints" for s
    using higher_k_NA_seq_ok [OF k hyp(1,2) [OF that] assms(2) hyp(3) [OF that]] by blast
  then obtain out where out: "for_each (higher_k_NA_seq k let_len) seq_ints = Inr out"
    using for_each_total by blast
  then have len: "length out = length seq_ints"
    and each: "\<And>i. i < length seq_ints \<Longrightarrow> higher_k_NA_seq k let_len (seq_ints ! i) = Inr (out ! i)"
    by (simp_all add: for_each_Inr_iff)
  have "length (out ! i) = length (seq_ints ! i) \<and>
        (\<forall>j < length (seq_ints ! i).
           if j + nat k \<le> length (seq_ints ! i)
           then ((\<exists>b < nat k. seq_ints ! i ! (j + b) = - 1) \<longrightarrow> out ! i ! j = - 1) \<and>
                ((\<forall>b < nat k. 0 \<le> seq_ints ! i ! (j + b)) \<longrightarrow>
                   out ! i ! j = composite_value (seq_ints ! i) k let_len j)
           else out ! i ! j = seq_ints ! i ! j)"
    if i: "i < length seq_ints" for i
  proof -
    have mem: "seq_ints ! i \<in> set seq_ints" using i by simp
    from higher_k_NA_seq_ok [OF k hyp(1,2) [OF mem] assms(2) hyp(3) [OF mem]] each [OF i]
    have r: "length (out ! i) = length (seq_ints ! i)"
      "\<forall>j<length (seq_ints ! i). out ! i ! j =
          (if j + nat k \<le> length (seq_ints ! i)
           then if \<exists>c<nat k. seq_ints ! i ! (j + c) < 0 then - 1
                else composite_value (seq_ints ! i) k let_len j
           else seq_ints ! i ! j)"
      by auto
    have "(\<exists>c<nat k. seq_ints ! i ! (j + c) < 0)" if "\<exists>b < nat k. seq_ints ! i ! (j + b) = - 1" for j
      using that by force
    moreover have "\<not> (\<exists>c<nat k. seq_ints ! i ! (j + c) < 0)" if "\<forall>b < nat k. 0 \<le> seq_ints ! i ! (j + b)" for j
      using that by force
    ultimately show ?thesis using r by auto
  qed
  with out len show "\<exists>out. deal_with_higher_k_NA seq_ints k let_len = Inr out \<and>
        length out = length seq_ints \<and>
        (\<forall>i < length seq_ints. length (out ! i) = length (seq_ints ! i) \<and>
           (\<forall>j < length (seq_ints ! i).
              if j + nat k \<le> length (seq_ints ! i)
              then ((\<exists>b < nat k. seq_ints ! i ! (j + b) = - 1) \<longrightarrow> out ! i ! j = - 1) \<and>
                   ((\<forall>b < nat k. 0 \<le> seq_ints ! i ! (j + b)) \<longrightarrow>
                      out ! i ! j = composite_value (seq_ints ! i) k let_len j)
              else out ! i ! j = seq_ints ! i ! j))"
    unfolding deal_with_higher_k_NA_def by blast
qed

theorem deal_with_higher_k_composite_witness:
  "deal_with_higher_k [[0, 1, 1, 0]] 2 2 = Inr [[1, 3, 2, 0]] \<and>
   composite_value [0, 1, 1, 0] 2 2 1 = 3 \<and>
   deal_with_higher_k_NA [[0, 1, - 1, 0]] 2 2 = Inr [[1, - 1, - 1, 0]] \<and>
   composite_value [0, 1, - 1, 0] 2 2 0 = 1"
proof -
  have h: "\<forall>s \<in> set [[0, 1, 1, 0 :: int]]. nat 2 \<le> length s + 1 \<and> length s < 2 ^ 64 \<and>
             (\<forall>x \<in> set s. - 1 \<le> x \<and> x < 2)"
    by simp
  have h': "\<forall>s \<in> set [[0, 1, - 1, 0 :: int]]. nat 2 \<le> length s + 1 \<and> length s < 2 ^ 64 \<and>
             (\<forall>x \<in> set s. - 1 \<le> x \<and> x < 2)"
    by simp
  have k: "(1::int) < 2" and n: "(2::int) ^ nat 2 \<le> 2 ^ 31" by simp_all
  have c: "composite_value [0, 1, 1, 0] 2 2 1 = 3" "composite_value [0, 1, - 1, 0] 2 2 0 = 1"
    by (simp_all add: composite_value_def lessThan_Suc eval_nat_numeral)
  show ?thesis
    using deal_with_higher_k_composite [OF k n h]
      deal_with_higher_k_composite [OF k n h'] c
    by (simp add: scan_defs loop_simps)
qed

subsection \<open>The scoring loops\<close>

lemma window_score_bounds:
  "window_score rows sequence i j tmp = Inr v \<Longrightarrow> rows \<noteq> [] \<Longrightarrow>
     i + j + length rows \<le> length sequence"
proof (induction rows arbitrary: j tmp)
  case Nil
  then show ?case by simp
next
  case (Cons row rows)
  from Cons.prems(1) obtain x where x: "vec_at sequence (i + j) = Inr x"
    by (cases "vec_at sequence (i + j)") auto
  then have lt: "i + j < length sequence" by (auto simp: vec_at_def split: if_splits)
  show ?case
  proof (cases "rows = []")
    case True
    with lt show ?thesis by simp
  next
    case False
    from Cons.prems(1) x obtain t where "window_score rows sequence i (Suc j) t = Inr v"
      by (auto split: sum.splits)
    from Cons.IH [OF this False] show ?thesis by simp
  qed
qed

lemma window_score_NA_bounds:
  "window_score_NA rows sequence i j tmp = Inr v \<Longrightarrow> rows \<noteq> [] \<Longrightarrow>
     i + j + length rows \<le> length sequence"
proof (induction rows arbitrary: j tmp)
  case Nil
  then show ?case by simp
next
  case (Cons row rows)
  from Cons.prems(1) obtain x where x: "vec_at sequence (i + j) = Inr x"
    by (cases "vec_at sequence (i + j)") auto
  then have lt: "i + j < length sequence" by (auto simp: vec_at_def split: if_splits)
  show ?case
  proof (cases "rows = []")
    case True
    with lt show ?thesis by simp
  next
    case False
    from Cons.prems(1) x obtain t where "window_score_NA rows sequence i (Suc j) t = Inr v"
      by (auto split: sum.splits if_splits)
    from Cons.IH [OF this False] show ?thesis by simp
  qed
qed

lemma vec_at_int_in: "0 \<le> x \<Longrightarrow> x < int (length v) \<Longrightarrow> vec_at_int v x = Inr (v ! nat x)"
  by (simp add: vec_at_int_def vec_at_def)

lemma window_score_ok:
  "i + j + length rows \<le> n \<Longrightarrow> n \<le> length sequence \<Longrightarrow>
   \<forall>p < n. \<forall>row \<in> set rows. 0 \<le> sequence ! p \<and> sequence ! p < int (length row) \<Longrightarrow>
     \<exists>v. window_score rows sequence i j tmp = Inr v"
proof (induction rows arbitrary: j tmp)
  case Nil
  show ?case by simp
next
  case (Cons row rows)
  have p: "i + j < n" "i + j < length sequence" using Cons.prems by auto
  then have x: "vec_at sequence (i + j) = Inr (sequence ! (i + j))" by (simp add: vec_at_in)
  have "0 \<le> sequence ! (i + j) \<and> sequence ! (i + j) < int (length row)"
    using Cons.prems(3) p(1) by simp
  then have y: "vec_at_int row (sequence ! (i + j)) = Inr (row ! nat (sequence ! (i + j)))"
    by (simp add: vec_at_int_in)
  have "\<exists>v. window_score rows sequence i (Suc j) (tmp + row ! nat (sequence ! (i + j))) = Inr v"
    using Cons.prems by (intro Cons.IH) auto
  with x y show ?case by simp
qed

lemma window_score_NA_ok:
  "i + j + length rows \<le> n \<Longrightarrow> n \<le> length sequence \<Longrightarrow>
   \<forall>p < n. \<forall>row \<in> set rows. sequence ! p < 0 \<or> sequence ! p < int (length row) \<Longrightarrow>
     \<exists>v. window_score_NA rows sequence i j tmp = Inr v"
proof (induction rows arbitrary: j tmp)
  case Nil
  show ?case by simp
next
  case (Cons row rows)
  have p: "i + j < n" "i + j < length sequence" using Cons.prems by auto
  then have x: "vec_at sequence (i + j) = Inr (sequence ! (i + j))" by (simp add: vec_at_in)
  have rest: "\<exists>v. window_score_NA rows sequence i (Suc j) t = Inr v" for t
    using Cons.prems by (intro Cons.IH) auto
  show ?case
  proof (cases "sequence ! (i + j) < 0")
    case True
    with x rest show ?thesis by simp
  next
    case False
    then have "0 \<le> sequence ! (i + j) \<and> sequence ! (i + j) < int (length row)"
      using Cons.prems(3) p(1) by force
    then have "vec_at_int row (sequence ! (i + j)) = Inr (row ! nat (sequence ! (i + j)))"
      by (simp add: vec_at_int_in)
    with x False rest show ?thesis by simp
  qed
qed

lemma scan_loop_Inr:
  "scan_loop motif sequence bound i result = Inr r \<Longrightarrow>
     length r = length result + (bound - i) \<and>
     (\<forall>i'. i \<le> i' \<and> i' < bound \<longrightarrow> (\<exists>v. window_score motif sequence i' 0 0 = Inr v))"
proof (induction motif sequence bound i result rule: scan_loop.induct)
  case (1 motif sequence bound i result)
  show ?case
  proof (cases "i < bound")
    case True
    with "1.prems" obtain tmp where tmp: "window_score motif sequence i 0 0 = Inr tmp"
      and rest: "scan_loop motif sequence bound (Suc i) (result @ [tmp]) = Inr r"
      by (subst (asm) scan_loop.simps) (auto split: sum.splits)
    from "1.IH" [OF True tmp rest]
    have len: "length r = length (result @ [tmp]) + (bound - Suc i)"
      and later: "\<And>i'. Suc i \<le> i' \<Longrightarrow> i' < bound \<Longrightarrow> \<exists>v. window_score motif sequence i' 0 0 = Inr v"
      by blast+
    have "\<exists>v. window_score motif sequence i' 0 0 = Inr v" if "i \<le> i'" "i' < bound" for i'
      using that tmp later [of i'] by (cases "i' = i") auto
    with len True show ?thesis by auto
  next
    case False
    with "1.prems" show ?thesis by (subst (asm) scan_loop.simps) auto
  qed
qed

lemma scan_loop_NA_Inr:
  "scan_loop_NA motif sequence bound i result = Inr r \<Longrightarrow>
     length r = length result + (bound - i) \<and>
     (\<forall>i'. i \<le> i' \<and> i' < bound \<longrightarrow> (\<exists>v. window_score_NA motif sequence i' 0 0 = Inr v))"
proof (induction motif sequence bound i result rule: scan_loop_NA.induct)
  case (1 motif sequence bound i result)
  show ?case
  proof (cases "i < bound")
    case True
    with "1.prems" obtain tmp where tmp: "window_score_NA motif sequence i 0 0 = Inr tmp"
      and rest: "scan_loop_NA motif sequence bound (Suc i) (result @ [tmp]) = Inr r"
      by (subst (asm) scan_loop_NA.simps) (auto split: sum.splits)
    from "1.IH" [OF True tmp rest]
    have len: "length r = length (result @ [tmp]) + (bound - Suc i)"
      and later: "\<And>i'. Suc i \<le> i' \<Longrightarrow> i' < bound \<Longrightarrow> \<exists>v. window_score_NA motif sequence i' 0 0 = Inr v"
      by blast+
    have "\<exists>v. window_score_NA motif sequence i' 0 0 = Inr v" if "i \<le> i'" "i' < bound" for i'
      using that tmp later [of i'] by (cases "i' = i") auto
    with len True show ?thesis by auto
  next
    case False
    with "1.prems" show ?thesis by (subst (asm) scan_loop_NA.simps) auto
  qed
qed

lemma scan_loop_total:
  "(\<And>i'. i \<le> i' \<Longrightarrow> i' < bound \<Longrightarrow> \<exists>v. window_score motif sequence i' 0 0 = Inr v) \<Longrightarrow>
     \<exists>r. scan_loop motif sequence bound i result = Inr r"
proof (induction motif sequence bound i result rule: scan_loop.induct)
  case (1 motif sequence bound i result)
  show ?case
  proof (cases "i < bound")
    case True
    with "1.prems" obtain tmp where tmp: "window_score motif sequence i 0 0 = Inr tmp"
      by blast
    have "\<exists>r. scan_loop motif sequence bound (Suc i) (result @ [tmp]) = Inr r"
      using "1.prems" by (intro "1.IH" [OF True tmp]) auto
    with True tmp show ?thesis by (subst scan_loop.simps) simp
  next
    case False
    then show ?thesis by (subst scan_loop.simps) simp
  qed
qed

lemma scan_loop_NA_total:
  "(\<And>i'. i \<le> i' \<Longrightarrow> i' < bound \<Longrightarrow> \<exists>v. window_score_NA motif sequence i' 0 0 = Inr v) \<Longrightarrow>
     \<exists>r. scan_loop_NA motif sequence bound i result = Inr r"
proof (induction motif sequence bound i result rule: scan_loop_NA.induct)
  case (1 motif sequence bound i result)
  show ?case
  proof (cases "i < bound")
    case True
    with "1.prems" obtain tmp where tmp: "window_score_NA motif sequence i 0 0 = Inr tmp"
      by blast
    have "\<exists>r. scan_loop_NA motif sequence bound (Suc i) (result @ [tmp]) = Inr r"
      using "1.prems" by (intro "1.IH" [OF True tmp]) auto
    with True tmp show ?thesis by (subst scan_loop_NA.simps) simp
  next
    case False
    then show ?thesis by (subst scan_loop_NA.simps) simp
  qed
qed

subsection \<open>The number of window scores\<close>

lemma scan_bound:
  assumes "1 \<le> k" and "int (length motif) + k \<le> int (length sequence) + 2"
    and "length sequence + 1 < 2 ^ 64"
  shows "size_t_of (int (length sequence) - k + 1 - int (length motif) + 1) =
           nat (int (length sequence) - k + 1 - int (length motif) + 1)"
    and "\<And>i. i < nat (int (length sequence) - k + 1 - int (length motif) + 1) \<Longrightarrow>
           i + 0 + length motif \<le> nat (int (length sequence) - k + 1)"
    and "nat (int (length sequence) - k + 1) \<le> length sequence"
proof -
  have "int (length sequence + 1) < 2 ^ 64" using assms(3) by (simp only: of_nat_less_numeral_power_cancel_iff)
  then have "int (length sequence) + 1 < 2 ^ 64" by simp
  moreover have "0 \<le> int (length motif)" by simp
  ultimately have "int (length sequence) - k + 1 - int (length motif) + 1 < 2 ^ 64"
    using assms(1) by linarith
  moreover have "0 \<le> int (length sequence) - k + 1 - int (length motif) + 1"
    using assms(2) by linarith
  ultimately show "size_t_of (int (length sequence) - k + 1 - int (length motif) + 1) =
           nat (int (length sequence) - k + 1 - int (length motif) + 1)"
    by (simp add: size_t_of_id)
  show "i + 0 + length motif \<le> nat (int (length sequence) - k + 1)"
    if "i < nat (int (length sequence) - k + 1 - int (length motif) + 1)" for i
    using that by linarith
  show "nat (int (length sequence) - k + 1) \<le> length sequence"
    using assms(1) by linarith
qed

lemma scan_single_seq_length:
  assumes "1 \<le> k" and "int (length motif) + k \<le> int (length sequence) + 2"
    and "length sequence + 1 < 2 ^ 64"
    and ok: "\<forall>p < nat (int (length sequence) - k + 1). \<forall>row \<in> set motif.
          0 \<le> sequence ! p \<and> sequence ! p < int (length row)"
  shows "\<exists>r. scan_single_seq motif sequence k = Inr r \<and>
         int (length r) = int (length sequence) - k + 1 - int (length motif) + 1"
proof -
  define n where "n = nat (int (length sequence) - k + 1)"
  define bound where "bound = nat (int (length sequence) - k + 1 - int (length motif) + 1)"
  note b = scan_bound [OF assms(1-3), folded n_def bound_def]
  have nonneg: "0 \<le> int (length sequence) - k + 1 - int (length motif) + 1"
    using assms(2) by linarith
  have "\<exists>v. window_score motif sequence i 0 0 = Inr v" if "i < bound" for i
    using window_score_ok [OF b(2) [OF that] b(3)] ok unfolding n_def by blast
  then obtain r where r: "scan_loop motif sequence bound 0 [] = Inr r"
    using scan_loop_total [of 0 bound motif sequence "[]"] by blast
  from scan_loop_Inr [OF r] have "length r = bound" by simp
  with r nonneg show ?thesis
    unfolding scan_single_seq_def b(1) bound_def by auto
qed

lemma scan_single_seq_NA_length:
  assumes "1 \<le> k" and "int (length motif) + k \<le> int (length sequence) + 2"
    and "length sequence + 1 < 2 ^ 64"
    and ok: "\<forall>p < nat (int (length sequence) - k + 1). \<forall>row \<in> set motif.
          sequence ! p < 0 \<or> sequence ! p < int (length row)"
  shows "\<exists>r. scan_single_seq_NA motif sequence k = Inr r \<and>
         int (length r) = int (length sequence) - k + 1 - int (length motif) + 1"
proof -
  define n where "n = nat (int (length sequence) - k + 1)"
  define bound where "bound = nat (int (length sequence) - k + 1 - int (length motif) + 1)"
  note b = scan_bound [OF assms(1-3), folded n_def bound_def]
  have nonneg: "0 \<le> int (length sequence) - k + 1 - int (length motif) + 1"
    using assms(2) by linarith
  have "\<exists>v. window_score_NA motif sequence i 0 0 = Inr v" if "i < bound" for i
    using window_score_NA_ok [OF b(2) [OF that] b(3)] ok unfolding n_def by blast
  then obtain r where r: "scan_loop_NA motif sequence bound 0 [] = Inr r"
    using scan_loop_NA_total [of 0 bound motif sequence "[]"] by blast
  from scan_loop_NA_Inr [OF r] have "length r = bound" by simp
  with r nonneg show ?thesis
    unfolding scan_single_seq_NA_def b(1) bound_def by auto
qed

text \<open>
  C1, as the code has it. The number of window scores is not \<open>L - W + 1\<close> for every
  \<open>k\<close>: the loop of both scorers runs to \<open>L - k + 1 - W + 1\<close>, where \<open>L\<close> is the
  length of the stream and \<open>W\<close> the number of positions of the score matrix. With two
  symbols, one position and \<open>k = 2\<close> the scanner returns one score, not two.
\<close>

theorem scan_count_counterexample:
  "length [[5, 6, 7, 8 :: int]] \<le> length ''AC'' \<and>
   scan_sequences_cpp_internal [[[5, 6, 7, 8]]] [''AC''] 2 ''AC'' 1 True = Inr ([], [[[6]]]) \<and>
   scan_single_seq [[5, 6, 7, 8]] [1, 1] 2 = Inr [6] \<and>
   scan_single_seq_NA [[5, 6, 7, 8]] [1, 1] 2 = Inr [6] \<and>
   length [6 :: int] \<noteq> length ''AC'' - length [[5, 6, 7, 8 :: int]] + 1"
  by (simp add: scan_defs loop_simps)

text \<open>
  C1, amended. Let the score matrix have \<open>W\<close> positions and the stream \<open>L\<close> symbols
  (\<open>L + 1\<close> below \<open>2 ^ 64\<close>), with \<open>k \<ge> 1\<close> and \<open>W + k \<le> L + 2\<close>, so that
  \<open>L - k + 1 - W + 1\<close> is not negative. When every symbol among the first \<open>L - k + 1\<close>
  is an index into every row of the matrix (for the sentinel-aware scorer: or is negative),
  the scorer returns exactly \<open>L - k + 1 - W + 1\<close> scores, one per start offset. That is
  \<open>L - W + 1\<close> for \<open>k = 1\<close> only.
\<close>

theorem scan_single_seq_count:
  assumes "1 \<le> k" and "int (length motif) + k \<le> int (length sequence) + 2"
    and "length sequence + 1 < 2 ^ 64"
  shows
    "((\<forall>p < nat (int (length sequence) - k + 1). \<forall>row \<in> set motif.
          0 \<le> sequence ! p \<and> sequence ! p < int (length row)) \<longrightarrow>
      (\<exists>r. scan_single_seq motif sequence k = Inr r \<and>
         int (length r) = int (length sequence) - k + 1 - int (length motif) + 1)) \<and>
     ((\<forall>p < nat (int (length sequence) - k + 1). \<forall>row \<in> set motif.
          sequence ! p < 0 \<or> sequence ! p < int (length row)) \<longrightarrow>
      (\<exists>r. scan_single_seq_NA motif sequence k = Inr r \<and>
         int (length r) = int (length sequence) - k + 1 - int (length motif) + 1))"
  using scan_single_seq_length [OF assms] scan_single_seq_NA_length [OF assms] by blast

theorem scan_single_seq_count_witness:
  "scan_single_seq [[5, 6, 7, 8], [1, 2, 3, 4]] [1, 3, 2, 0] 2 = Inr [10, 11] \<and>
   scan_single_seq_NA [[5, 6, 7, 8], [1, 2, 3, 4]] [1, - 1, 2, 0] 2 = Inr [- 999993, - 999996] \<and>
   int (length [10, 11 :: int]) =
     int (length [1, 3, 2, 0 :: int]) - 2 + 1 - int (length [[5, 6, 7, 8], [1, 2, 3, 4 :: int]]) + 1"
proof -
  have k: "(1::int) \<le> 2" by simp
  have w: "int (length [[5, 6, 7, 8], [1, 2, 3, 4 :: int]]) + 2 \<le> int (length [1, 3, 2, 0 :: int]) + 2"
    by simp
  have w': "int (length [[5, 6, 7, 8], [1, 2, 3, 4 :: int]]) + 2 \<le> int (length [1, - 1, 2, 0 :: int]) + 2"
    by simp
  have l: "length [1, 3, 2, 0 :: int] + 1 < 2 ^ 64" "length [1, - 1, 2, 0 :: int] + 1 < 2 ^ 64" by simp_all
  have v: "\<forall>p < nat (int (length [1, 3, 2, 0 :: int]) - 2 + 1).
             \<forall>row \<in> set [[5, 6, 7, 8], [1, 2, 3, 4 :: int]].
               0 \<le> [1, 3, 2, 0 :: int] ! p \<and> [1, 3, 2, 0 :: int] ! p < int (length row)"
    by (auto simp: less_Suc_eq eval_nat_numeral)
  have v': "\<forall>p < nat (int (length [1, - 1, 2, 0 :: int]) - 2 + 1).
             \<forall>row \<in> set [[5, 6, 7, 8], [1, 2, 3, 4 :: int]].
               [1, - 1, 2, 0 :: int] ! p < 0 \<or> [1, - 1, 2, 0 :: int] ! p < int (length row)"
    by (auto simp: less_Suc_eq eval_nat_numeral)
  have e: "scan_single_seq [[5, 6, 7, 8], [1, 2, 3, 4]] [1, 3, 2, 0] 2 = Inr [10, 11]"
    "scan_single_seq_NA [[5, 6, 7, 8], [1, 2, 3, 4]] [1, - 1, 2, 0] 2 = Inr [- 999993, - 999996]"
    by (simp_all add: scan_defs loop_simps)
  from scan_single_seq_count [OF k w l(1)] v
  have "\<exists>r. scan_single_seq [[5, 6, 7, 8], [1, 2, 3, 4]] [1, 3, 2, 0] 2 = Inr r \<and>
          int (length r) =
            int (length [1, 3, 2, 0 :: int]) - 2 + 1 - int (length [[5, 6, 7, 8], [1, 2, 3, 4 :: int]]) + 1"
    by blast
  moreover from scan_single_seq_count [OF k w' l(2)] v'
  have "\<exists>r. scan_single_seq_NA [[5, 6, 7, 8], [1, 2, 3, 4]] [1, - 1, 2, 0] 2 = Inr r \<and>
          int (length r) =
            int (length [1, - 1, 2, 0 :: int]) - 2 + 1 - int (length [[5, 6, 7, 8], [1, 2, 3, 4 :: int]]) + 1"
    by blast
  ultimately show ?thesis using e by simp
qed

subsection \<open>Failures of the loops and the fatal error of the entry point\<close>

lemma vec_at_Inl: "vec_at v i = Inl e \<Longrightarrow> e = OutOfBounds"
  by (auto simp: vec_at_def split: if_splits)

lemma vec_at_int_Inl: "vec_at_int v x = Inl e \<Longrightarrow> e = OutOfBounds"
  by (auto simp: vec_at_int_def dest: vec_at_Inl split: if_splits)

lemma vec_set_Inl: "vec_set v i x = Inl e \<Longrightarrow> e = OutOfBounds"
  by (auto simp: vec_set_def split: if_splits)

lemma higher_k_window_Inl: "higher_k_window s k n j b tmp = Inl e \<Longrightarrow> e = OutOfBounds"
proof (induction s k n j b tmp rule: higher_k_window.induct)
  case (1 s k n j b tmp)
  from "1.prems" show ?case
    by (subst (asm) higher_k_window.simps)
       (auto split: if_splits sum.splits dest: vec_at_Inl "1.IH")
qed

lemma higher_k_NA_window_Inl: "higher_k_NA_window s k n j b tmp = Inl e \<Longrightarrow> e = OutOfBounds"
proof (induction s k n j b tmp rule: higher_k_NA_window.induct)
  case (1 s k n j b tmp)
  from "1.prems" show ?case
    by (subst (asm) higher_k_NA_window.simps)
       (auto split: if_splits sum.splits dest: vec_at_Inl "1.IH")
qed

lemma higher_k_positions_Inl: "higher_k_positions k n bound j s = Inl e \<Longrightarrow> e = OutOfBounds"
proof (induction k n bound j s rule: higher_k_positions.induct)
  case (1 k n bound j s)
  from "1.prems" show ?case
    by (subst (asm) higher_k_positions.simps)
       (auto split: if_splits sum.splits dest: higher_k_window_Inl vec_set_Inl "1.IH")
qed

lemma higher_k_NA_positions_Inl:
  "higher_k_NA_positions k n bound j s = Inl e \<Longrightarrow> e = OutOfBounds"
proof (induction k n bound j s rule: higher_k_NA_positions.induct)
  case (1 k n bound j s)
  from "1.prems" show ?case
    by (subst (asm) higher_k_NA_positions.simps)
       (auto split: if_splits sum.splits dest: higher_k_NA_window_Inl vec_set_Inl "1.IH")
qed

lemma deal_with_higher_k_Inl: "deal_with_higher_k seq_ints k n = Inl e \<Longrightarrow> e = OutOfBounds"
  unfolding deal_with_higher_k_def higher_k_seq_def
  by (auto dest!: for_each_Inl dest: higher_k_positions_Inl)

lemma deal_with_higher_k_NA_Inl:
  "deal_with_higher_k_NA seq_ints k n = Inl e \<Longrightarrow> e = OutOfBounds"
  unfolding deal_with_higher_k_NA_def higher_k_NA_seq_def
  by (auto dest!: for_each_Inl dest: higher_k_NA_positions_Inl)

lemma window_score_Inl: "window_score rows sequence i j tmp = Inl e \<Longrightarrow> e = OutOfBounds"
  by (induction rows arbitrary: j tmp)
     (auto split: sum.splits dest: vec_at_Inl vec_at_int_Inl)

lemma window_score_NA_Inl: "window_score_NA rows sequence i j tmp = Inl e \<Longrightarrow> e = OutOfBounds"
  by (induction rows arbitrary: j tmp)
     (auto split: sum.splits if_splits dest: vec_at_Inl vec_at_int_Inl)

lemma scan_loop_Inl: "scan_loop motif sequence bound i result = Inl e \<Longrightarrow> e = OutOfBounds"
proof (induction motif sequence bound i result rule: scan_loop.induct)
  case (1 motif sequence bound i result)
  from "1.prems" show ?case
    by (subst (asm) scan_loop.simps)
       (auto split: if_splits sum.splits dest: window_score_Inl "1.IH")
qed

lemma scan_loop_NA_Inl: "scan_loop_NA motif sequence bound i result = Inl e \<Longrightarrow> e = OutOfBounds"
proof (induction motif sequence bound i result rule: scan_loop_NA.induct)
  case (1 motif sequence bound i result)
  from "1.prems" show ?case
    by (subst (asm) scan_loop_NA.simps)
       (auto split: if_splits sum.splits dest: window_score_NA_Inl "1.IH")
qed

lemma scan_all_Inl:
  "for_each (\<lambda>m. for_each (\<lambda>s. scan_single_seq m s k) seq_ints) score_mats = Inl e \<Longrightarrow>
     e = OutOfBounds"
  unfolding scan_single_seq_def by (auto dest!: for_each_Inl dest: scan_loop_Inl)

lemma scan_all_NA_Inl:
  "for_each (\<lambda>m. for_each (\<lambda>s. scan_single_seq_NA m s k) seq_ints) score_mats = Inl e \<Longrightarrow>
     e = OutOfBounds"
  unfolding scan_single_seq_NA_def by (auto dest!: for_each_Inl dest: scan_loop_NA_Inl)

lemma scan_sequences_cpp_internal_Inl:
  "scan_sequences_cpp_internal score_mats seq_vecs k alph nthreads warnNA = Inl e \<Longrightarrow>
     e = OutOfBounds"
  unfolding scan_sequences_cpp_internal_def Let_def
  by (auto split: sum.splits if_splits
      dest: deal_with_higher_k_Inl deal_with_higher_k_NA_Inl scan_all_Inl scan_all_NA_Inl)

lemma format_positions_Inl:
  "format_positions scores motifs i j b xs = Inl e \<Longrightarrow> e = OutOfBounds"
  by (induction xs arbitrary: b) (auto split: sum.splits if_splits dest: vec_at_Inl)

lemma format_sequences_Inl:
  "format_sequences scores motifs i j vs = Inl e \<Longrightarrow> e = OutOfBounds"
  by (induction vs arbitrary: j) (auto split: sum.splits dest: format_positions_Inl)

lemma format_motifs_Inl:
  "format_motifs scores motifs i ms = Inl e \<Longrightarrow> e = OutOfBounds"
  by (induction ms arbitrary: i) (auto split: sum.splits dest: format_sequences_Inl)

lemma get_match_Inl:
  "get_match seq_vecs motifs h = Inl e \<Longrightarrow> e = OutOfBounds \<or> e = OutOfRange"
  by (auto simp: get_match_def substr_int_def substr_def
      split: sum.splits if_splits dest: vec_at_int_Inl)

lemma get_matches_Inl:
  "get_matches res seq_vecs motifs = Inl e \<Longrightarrow> e = OutOfBounds \<or> e = OutOfRange"
  unfolding get_matches_def by (auto dest!: for_each_Inl dest: get_match_Inl)

lemma check_seq_sizes_Inl:
  "check_seq_sizes m seq_sizes = Inl e \<longleftrightarrow>
     e = Stop short_seq_error \<and> (\<exists>s \<in> set seq_sizes. s < m)"
  by (induction seq_sizes) auto

lemma check_seq_sizes_Inr:
  "check_seq_sizes m seq_sizes = Inr u \<longleftrightarrow> \<not> (\<exists>s \<in> set seq_sizes. s < m)"
  by (induction seq_sizes) auto

lemma check_motif_sizes_Inl:
  "check_motif_sizes motif_sizes seq_sizes = Inl e \<longleftrightarrow>
     e = Stop short_seq_error \<and> (\<exists>m \<in> set motif_sizes. \<exists>s \<in> set seq_sizes. s < m)"
  by (induction motif_sizes) (auto simp: check_seq_sizes_Inl check_seq_sizes_Inr split: sum.splits)

lemma check_sizes_of_lengths:
  "check_motif_sizes (map (\<lambda>m. int (length m)) score_mats) (map (\<lambda>s. int (length s)) seq_vecs) = Inl e
     \<longleftrightarrow> e = Stop short_seq_error \<and>
           (\<exists>m \<in> set score_mats. \<exists>s \<in> set seq_vecs. length s < length m)"
  by (auto simp: check_motif_sizes_Inl)

lemma scan_sequences_cpp_Stop:
  "scan_sequences_cpp score_mats seq_vecs k alph min_scores nthreads allow_nonfinite warnNA
     = Inl (Stop msg) \<longleftrightarrow>
   msg = short_seq_error \<and> (\<exists>m \<in> set score_mats. \<exists>s \<in> set seq_vecs. length s < length m)"
proof (cases "check_motif_sizes (map (\<lambda>m. int (length m)) score_mats)
                (map (\<lambda>s. int (length s)) seq_vecs)")
  case (Inl e)
  then show ?thesis
    using check_sizes_of_lengths [of score_mats seq_vecs e]
    by (auto simp: scan_sequences_cpp_def Let_def)
next
  case (Inr u)
  then have no: "\<not> (\<exists>m \<in> set score_mats. \<exists>s \<in> set seq_vecs. length s < length m)"
    using check_sizes_of_lengths [of score_mats seq_vecs "Stop short_seq_error"] by auto
  have "scan_sequences_cpp score_mats seq_vecs k alph min_scores nthreads allow_nonfinite warnNA
          \<noteq> Inl (Stop msg)"
    unfolding scan_sequences_cpp_def Let_def format_results_def using Inr
    by (auto split: sum.splits prod.splits
        dest: scan_sequences_cpp_internal_Inl format_motifs_Inl get_matches_Inl)
  with no show ?thesis by blast
qed

subsection \<open>The entry point: precondition, unused parameter and bounds\<close>

text \<open>
  C3. The call fails with the error \<open>Found sequence(s) shorter than the width of the
  motif(s)\<close> exactly when some sequence has fewer characters than some score matrix has
  positions. This holds for every \<open>k\<close>, alphabet and list of thresholds, so the failure
  does not depend on the encoding or the scan, which come after the check; the result
  of a failed call is the error alone, without rows. Conversely, when every sequence
  is at least as long as every motif is wide, the call does not fail with this error.
\<close>

theorem short_sequence_is_fatal:
  "scan_sequences_cpp score_mats seq_vecs k alph min_scores nthreads allow_nonfinite warnNA
     = Inl (Stop short_seq_error) \<longleftrightarrow>
   (\<exists>m \<in> set score_mats. \<exists>s \<in> set seq_vecs. length s < length m)"
  by (simp add: scan_sequences_cpp_Stop)

theorem short_sequence_is_fatal_witness:
  "scan_sequences_cpp [[[10, 0, 0, 0], [0, 10, 0, 0], [0, 0, 10, 0], [0, 0, 0, 10]]]
     [''ACG''] 1 ''ACGT'' [40] 1 False True = Inl (Stop short_seq_error) \<and>
   scan_sequences_cpp [[[10, 0, 0, 0], [0, 10, 0, 0], [0, 0, 10, 0], [0, 0, 0, 10]]]
     [''ACGTACGT''] 1 ''ACGT'' [40] 1 False True \<noteq> Inl (Stop short_seq_error)"
  using short_sequence_is_fatal
          [of "[[[10, 0, 0, 0], [0, 10, 0, 0], [0, 0, 10, 0], [0, 0, 0, 10]]]" "[''ACG'']"
              1 "''ACGT''" "[40]" 1 False True]
        short_sequence_is_fatal
          [of "[[[10, 0, 0, 0], [0, 10, 0, 0], [0, 0, 10, 0], [0, 0, 0, 10]]]" "[''ACGTACGT'']"
              1 "''ACGT''" "[40]" 1 False True]
  by simp

text \<open>
  C10. The parameter \<open>allow_nonfinite\<close> is not read: the call returns the same
  result with \<open>true\<close> and with \<open>false\<close>.
\<close>

theorem allow_nonfinite_unused:
  "scan_sequences_cpp score_mats seq_vecs k alph min_scores nthreads True warnNA =
   scan_sequences_cpp score_mats seq_vecs k alph min_scores nthreads False warnNA"
  by (simp add: scan_sequences_cpp_def)

text \<open>
  C4, at a failing input. Alphabet \<open>AC\<close>, the sequence \<open>AN\<close>, one score matrix with two
  positions and \<open>k = 3\<close>: the sequence is as long as the motif is wide, so the
  precondition check passes. The bound \<open>2 - 3 + 1 - 2 + 1\<close> of the sentinel-aware
  scorer wraps around to \<open>2 ^ 64 - 1\<close>, and its second window reads \<open>sequence[2]\<close>,
  outside the stream. With the sequence \<open>N\<close> and one position the bound \<open>1 - 3 + 1\<close> of
  the sentinel-aware recoder wraps around in the same way, and the loop over the symbols
  of a window reads \<open>seq_ints[i][1]\<close> outside the stream.
\<close>

theorem scan_reads_out_of_bounds:
  "length [[0, 0, 0, 0, 0, 0, 0, 0], [0, 0, 0, 0, 0, 0, 0, 0 :: real]] \<le> length ''AN'' \<and>
   size_t_of (int (length ''AN'') - 3 + 1 - 2 + 1) = 2 ^ 64 - 1 \<and>
   deal_with_higher_k_NA [[0, - 1]] 3 2 = Inr [[0, - 1]] \<and>
   scan_single_seq_NA [[0, 0, 0, 0, 0, 0, 0, 0], [0, 0, 0, 0, 0, 0, 0, 0]] [0, - 1] 3
     = Inl OutOfBounds \<and>
   scan_sequences_cpp [[[0, 0, 0, 0, 0, 0, 0, 0], [0, 0, 0, 0, 0, 0, 0, 0]]] [''AN''] 3 ''AC''
     [0] 1 False True = Inl OutOfBounds \<and>
   deal_with_higher_k_NA [[- 1]] 3 2 = Inl OutOfBounds \<and>
   scan_sequences_cpp [[[0, 0, 0, 0, 0, 0, 0, 0]]] [''N''] 3 ''AC'' [0] 1 False True
     = Inl OutOfBounds"
  by (simp add: scan_defs loop_simps)

subsection \<open>The encoding of characters\<close>

lemma find_letter_None: "find_letter alph c a = None \<longleftrightarrow> c \<notin> set alph"
  by (induction alph arbitrary: a) auto

lemma find_letter_Some:
  "find_letter alph c a = Some i \<Longrightarrow> a \<le> i \<and> i < a + length alph"
proof (induction alph arbitrary: a)
  case Nil
  then show ?case by simp
next
  case (Cons x alph)
  show ?case
  proof (cases "c = x")
    case True
    with Cons.prems show ?thesis by simp
  next
    case False
    with Cons.prems have "find_letter alph c (Suc a) = Some i" by simp
    from Cons.IH [OF this] show ?thesis by simp
  qed
qed

lemma encode_chars_fst_length:
  "length (fst (encode_chars alph s ints na)) = length ints + length s"
  by (induction s arbitrary: ints na) (auto split: option.splits)

lemma encode_chars_snd:
  "snd (encode_chars alph s ints na) = (if \<exists>c \<in> set s. c \<notin> set alph then 1 else na)"
proof (induction s arbitrary: ints na)
  case Nil
  show ?case by simp
next
  case (Cons c s)
  show ?case
  proof (cases "find_letter alph c 0")
    case None
    then have "c \<notin> set alph" by (simp add: find_letter_None)
    with None Cons.IH [of "ints @ [- 1]" 1] show ?thesis by auto
  next
    case (Some a)
    then have "c \<in> set alph" using find_letter_None [of alph c 0] by auto
    with Some Cons.IH [of "ints @ [int a]" na] show ?thesis by auto
  qed
qed

lemma encode_chars_symbols:
  "\<forall>x \<in> set ints. - 1 \<le> x \<and> x < int (length alph) \<Longrightarrow>
     \<forall>x \<in> set (fst (encode_chars alph s ints na)). - 1 \<le> x \<and> x < int (length alph)"
proof (induction s arbitrary: ints na)
  case Nil
  then show ?case by simp
next
  case (Cons c s)
  show ?case
  proof (cases "find_letter alph c 0")
    case None
    have "\<forall>x \<in> set (ints @ [- 1]). - 1 \<le> x \<and> x < int (length alph)"
      using Cons.prems by auto
    from Cons.IH [OF this] None show ?thesis by simp
  next
    case (Some a)
    from find_letter_Some [OF Some] have "a < length alph" by simp
    then have "\<forall>x \<in> set (ints @ [int a]). - 1 \<le> x \<and> x < int (length alph)"
      using Cons.prems by auto
    from Cons.IH [OF this] Some show ?thesis by simp
  qed
qed

lemma encode_chars_clean:
  "\<forall>x \<in> set ints. 0 \<le> x \<Longrightarrow> \<forall>c \<in> set s. c \<in> set alph \<Longrightarrow>
     \<forall>x \<in> set (fst (encode_chars alph s ints na)). 0 \<le> x"
proof (induction s arbitrary: ints na)
  case Nil
  then show ?case by simp
next
  case (Cons c s)
  from Cons.prems(2) obtain a where a: "find_letter alph c 0 = Some a"
    using find_letter_None [of alph c 0] by (cases "find_letter alph c 0") auto
  have "\<forall>x \<in> set (ints @ [int a]). 0 \<le> x" using Cons.prems(1) by auto
  from Cons.IH [OF this] Cons.prems(2) a show ?case by simp
qed

lemma na_index_sum:
  "0 < sum_list (map snd (map (\<lambda>s. encode_chars alph s [] 0) seq_vecs)) \<longleftrightarrow>
     (\<exists>s \<in> set seq_vecs. \<exists>c \<in> set s. c \<notin> set alph)"
proof (induction seq_vecs)
  case Nil
  show ?case by simp
next
  case (Cons s seq_vecs)
  have nonneg: "0 \<le> sum_list (map snd (map (\<lambda>s. encode_chars alph s [] 0) seq_vecs))"
    by (rule sum_list_nonneg) (auto simp: encode_chars_snd)
  show ?case
  proof (cases "\<exists>c \<in> set s. c \<notin> set alph")
    case True
    then have "snd (encode_chars alph s [] 0) = 1" by (simp add: encode_chars_snd)
    with nonneg True show ?thesis by auto
  next
    case False
    then have "snd (encode_chars alph s [] 0) = 0" by (simp add: encode_chars_snd)
    with Cons.IH False show ?thesis by auto
  qed
qed

subsection \<open>The range of the composite symbols\<close>

lemma radix_sum_bounds:
  fixes n :: int
  shows "(\<And>b. b < K \<Longrightarrow> 0 \<le> f b \<and> f b < n) \<Longrightarrow>
     0 \<le> (\<Sum>b < K. f b * n ^ (K - 1 - b)) \<and> (\<Sum>b < K. f b * n ^ (K - 1 - b)) < n ^ K"
proof (induction K)
  case 0
  show ?case by simp
next
  case (Suc K)
  define S where "S = (\<Sum>b < K. f b * n ^ (K - 1 - b))"
  have IH: "0 \<le> S" "S < n ^ K" using Suc.IH Suc.prems unfolding S_def by auto
  have fK: "0 \<le> f K" "f K < n" using Suc.prems [of K] by auto
  then have n: "1 \<le> n" by linarith
  have "(\<Sum>b < K. f b * n ^ (Suc K - 1 - b)) = (\<Sum>b < K. n * (f b * n ^ (K - 1 - b)))"
  proof (rule sum.cong [OF refl])
    fix b assume "b \<in> {..<K}"
    then have "Suc K - 1 - b = Suc (K - 1 - b)" by auto
    then show "f b * n ^ (Suc K - 1 - b) = n * (f b * n ^ (K - 1 - b))" by simp
  qed
  also have "\<dots> = n * S" by (simp add: S_def sum_distrib_left)
  finally have eq: "(\<Sum>b < Suc K. f b * n ^ (Suc K - 1 - b)) = n * S + f K" by simp
  have "n * S + f K \<le> n * (n ^ K - 1) + (n - 1)"
    using IH fK n by (intro add_mono mult_left_mono) auto
  also have "\<dots> < n ^ Suc K" by (simp add: algebra_simps)
  finally have up: "n * S + f K < n ^ Suc K" .
  have "0 \<le> n * S + f K" using IH fK n by simp
  with up show ?case unfolding eq by simp
qed

lemma composite_value_bounds:
  "(\<And>c. c < nat k \<Longrightarrow> 0 \<le> s ! (j + c) \<and> s ! (j + c) < n) \<Longrightarrow>
     0 \<le> composite_value s k n j \<and> composite_value s k n j < n ^ nat k"
  unfolding composite_value_def by (rule radix_sum_bounds) auto

lemma higher_k_seq_symbols:
  assumes "1 \<le> k" and "nat k \<le> length s + 1" and "length s < 2 ^ 64"
    and "\<forall>x \<in> set s. 0 \<le> x \<and> x < n" and "n ^ nat k \<le> 2 ^ 31"
  shows "\<exists>r. higher_k_seq k n s = Inr r \<and> length r = length s \<and>
           (\<forall>p < nat (int (length s) - k + 1). 0 \<le> r ! p \<and> r ! p < n ^ nat k)"
proof -
  from higher_k_seq_ok [OF assms(1-3) assms(5) assms(4)]
  obtain r where r: "higher_k_seq k n s = Inr r" "length r = length s"
    "\<forall>j<length s. r ! j = (if j + nat k \<le> length s then composite_value s k n j else s ! j)"
    by blast
  have "0 \<le> r ! p \<and> r ! p < n ^ nat k" if "p < nat (int (length s) - k + 1)" for p
  proof -
    from that assms(1) have in_win: "p + nat k \<le> length s" and p: "p < length s" by linarith+
    have "0 \<le> s ! (p + c) \<and> s ! (p + c) < n" if "c < nat k" for c
      using that in_win assms(4) by simp
    from composite_value_bounds [of k s p n, OF this] r(3) p in_win show ?thesis by simp
  qed
  with r show ?thesis by blast
qed

lemma higher_k_NA_seq_symbols:
  assumes "1 \<le> k" and "nat k \<le> length s + 1" and "length s < 2 ^ 64"
    and "\<forall>x \<in> set s. - 1 \<le> x \<and> x < n" and "n ^ nat k \<le> 2 ^ 31"
  shows "\<exists>r. higher_k_NA_seq k n s = Inr r \<and> length r = length s \<and>
           (\<forall>p < nat (int (length s) - k + 1). r ! p < 0 \<or> r ! p < n ^ nat k)"
proof -
  have "\<forall>x \<in> set s. x < n" using assms(4) by blast
  from higher_k_NA_seq_ok [OF assms(1-3) assms(5) this]
  obtain r where r: "higher_k_NA_seq k n s = Inr r" "length r = length s"
    "\<forall>j<length s. r ! j =
       (if j + nat k \<le> length s
        then (if \<exists>c < nat k. s ! (j + c) < 0 then - 1 else composite_value s k n j)
        else s ! j)"
    by blast
  have "r ! p < 0 \<or> r ! p < n ^ nat k" if "p < nat (int (length s) - k + 1)" for p
  proof -
    from that assms(1) have in_win: "p + nat k \<le> length s" and p: "p < length s" by linarith+
    show ?thesis
    proof (cases "\<exists>c < nat k. s ! (p + c) < 0")
      case True
      with r(3) p in_win show ?thesis by simp
    next
      case False
      then have nn: "\<And>c. c < nat k \<Longrightarrow> 0 \<le> s ! (p + c)" by (meson not_less)
      have "0 \<le> s ! (p + c) \<and> s ! (p + c) < n" if "c < nat k" for c
        using that in_win assms(4) nn [OF that] by simp
      from composite_value_bounds [of k s p n, OF this] r(3) p in_win False show ?thesis by simp
    qed
  qed
  with r show ?thesis by blast
qed

subsection \<open>Recoding and scanning return under the size conditions\<close>

lemma recode_strict_total:
  assumes k: "1 \<le> k"
    and klen: "\<forall>s \<in> set streams. k \<le> int (length s) + 1 \<and> length s + 1 < 2 ^ 64"
    and sym: "\<forall>s \<in> set streams. \<forall>x \<in> set s. 0 \<le> x \<and> x < n"
    and npow: "1 < k \<longrightarrow> n ^ nat k \<le> 2 ^ 31"
  shows "\<exists>s'. (if k > 1 then deal_with_higher_k streams k n else Inr streams) = Inr s' \<and>
           length s' = length streams \<and>
           (\<forall>j < length streams. length (s' ! j) = length (streams ! j) \<and>
              (\<forall>p < nat (int (length (streams ! j)) - k + 1).
                 0 \<le> s' ! j ! p \<and> s' ! j ! p < n ^ nat k))"
proof (cases "k > 1")
  case True
  have one: "\<exists>r. higher_k_seq k n s = Inr r \<and> length r = length s \<and>
           (\<forall>p < nat (int (length s) - k + 1). 0 \<le> r ! p \<and> r ! p < n ^ nat k)"
    if "s \<in> set streams" for s
  proof (rule higher_k_seq_symbols [OF k])
    show "nat k \<le> length s + 1" using klen that by force
    show "length s < 2 ^ 64" using klen that by force
    show "\<forall>x \<in> set s. 0 \<le> x \<and> x < n" using sym that by blast
    show "n ^ nat k \<le> 2 ^ 31" using npow True by blast
  qed
  then obtain s' where s': "for_each (higher_k_seq k n) streams = Inr s'"
    using for_each_total [of streams "higher_k_seq k n"] by blast
  then have len: "length s' = length streams"
    and each: "\<And>j. j < length streams \<Longrightarrow> higher_k_seq k n (streams ! j) = Inr (s' ! j)"
    by (simp_all add: for_each_Inr_iff)
  have "length (s' ! j) = length (streams ! j) \<and>
        (\<forall>p < nat (int (length (streams ! j)) - k + 1). 0 \<le> s' ! j ! p \<and> s' ! j ! p < n ^ nat k)"
    if "j < length streams" for j
    using one [of "streams ! j"] each [OF that] that by auto
  with s' len True show ?thesis by (simp add: deal_with_higher_k_def)
next
  case False
  with k have k1: "k = 1" by simp
  have "0 \<le> streams ! j ! p \<and> streams ! j ! p < n"
    if "j < length streams" "p < length (streams ! j)" for j p
    using sym that by (meson nth_mem)
  then show ?thesis using k1 by simp
qed

lemma recode_NA_total:
  assumes k: "1 \<le> k"
    and klen: "\<forall>s \<in> set streams. k \<le> int (length s) + 1 \<and> length s + 1 < 2 ^ 64"
    and sym: "\<forall>s \<in> set streams. \<forall>x \<in> set s. - 1 \<le> x \<and> x < n"
    and npow: "1 < k \<longrightarrow> n ^ nat k \<le> 2 ^ 31"
  shows "\<exists>s'. (if k > 1 then deal_with_higher_k_NA streams k n else Inr streams) = Inr s' \<and>
           length s' = length streams \<and>
           (\<forall>j < length streams. length (s' ! j) = length (streams ! j) \<and>
              (\<forall>p < nat (int (length (streams ! j)) - k + 1).
                 s' ! j ! p < 0 \<or> s' ! j ! p < n ^ nat k))"
proof (cases "k > 1")
  case True
  have one: "\<exists>r. higher_k_NA_seq k n s = Inr r \<and> length r = length s \<and>
           (\<forall>p < nat (int (length s) - k + 1). r ! p < 0 \<or> r ! p < n ^ nat k)"
    if "s \<in> set streams" for s
  proof (rule higher_k_NA_seq_symbols [OF k])
    show "nat k \<le> length s + 1" using klen that by force
    show "length s < 2 ^ 64" using klen that by force
    show "\<forall>x \<in> set s. - 1 \<le> x \<and> x < n" using sym that by blast
    show "n ^ nat k \<le> 2 ^ 31" using npow True by blast
  qed
  then obtain s' where s': "for_each (higher_k_NA_seq k n) streams = Inr s'"
    using for_each_total [of streams "higher_k_NA_seq k n"] by blast
  then have len: "length s' = length streams"
    and each: "\<And>j. j < length streams \<Longrightarrow> higher_k_NA_seq k n (streams ! j) = Inr (s' ! j)"
    by (simp_all add: for_each_Inr_iff)
  have "length (s' ! j) = length (streams ! j) \<and>
        (\<forall>p < nat (int (length (streams ! j)) - k + 1). s' ! j ! p < 0 \<or> s' ! j ! p < n ^ nat k)"
    if "j < length streams" for j
    using one [of "streams ! j"] each [OF that] that by auto
  with s' len True show ?thesis by (simp add: deal_with_higher_k_NA_def)
next
  case False
  with k have k1: "k = 1" by simp
  have "streams ! j ! p < 0 \<or> streams ! j ! p < n"
    if "j < length streams" "p < length (streams ! j)" for j p
    using sym that by (meson nth_mem)
  then show ?thesis using k1 by simp
qed

lemma scan_all_total:
  assumes k: "1 \<le> k"
    and fit: "\<forall>m \<in> set score_mats. \<forall>s \<in> set streams.
                int (length m) + k \<le> int (length s) + 2 \<and> length s + 1 < 2 ^ 64"
    and sym: "\<forall>s \<in> set streams. \<forall>p < nat (int (length s) - k + 1). 0 \<le> s ! p \<and> s ! p < N"
    and rows: "\<forall>m \<in> set score_mats. \<forall>row \<in> set m. N \<le> int (length row)"
  shows "\<exists>out. for_each (\<lambda>m. for_each (\<lambda>s. scan_single_seq m s k) streams) score_mats = Inr out"
proof (rule for_each_total)
  fix m assume m: "m \<in> set score_mats"
  show "\<exists>y. for_each (\<lambda>s. scan_single_seq m s k) streams = Inr y"
  proof (rule for_each_total)
    fix s assume s: "s \<in> set streams"
    have a: "int (length m) + k \<le> int (length s) + 2" and b: "length s + 1 < 2 ^ 64"
      using fit m s by auto
    have "\<forall>p < nat (int (length s) - k + 1). \<forall>row \<in> set m.
            0 \<le> s ! p \<and> s ! p < int (length row)"
      using sym rows m s by fastforce
    with scan_single_seq_length [OF k a b] show "\<exists>y. scan_single_seq m s k = Inr y" by blast
  qed
qed

lemma scan_all_NA_total:
  assumes k: "1 \<le> k"
    and fit: "\<forall>m \<in> set score_mats. \<forall>s \<in> set streams.
                int (length m) + k \<le> int (length s) + 2 \<and> length s + 1 < 2 ^ 64"
    and sym: "\<forall>s \<in> set streams. \<forall>p < nat (int (length s) - k + 1). s ! p < 0 \<or> s ! p < N"
    and rows: "\<forall>m \<in> set score_mats. \<forall>row \<in> set m. N \<le> int (length row)"
  shows "\<exists>out. for_each (\<lambda>m. for_each (\<lambda>s. scan_single_seq_NA m s k) streams) score_mats = Inr out"
proof (rule for_each_total)
  fix m assume m: "m \<in> set score_mats"
  show "\<exists>y. for_each (\<lambda>s. scan_single_seq_NA m s k) streams = Inr y"
  proof (rule for_each_total)
    fix s assume s: "s \<in> set streams"
    have a: "int (length m) + k \<le> int (length s) + 2" and b: "length s + 1 < 2 ^ 64"
      using fit m s by auto
    have "\<forall>p < nat (int (length s) - k + 1). \<forall>row \<in> set m.
            s ! p < 0 \<or> s ! p < int (length row)"
      using sym rows m s by fastforce
    with scan_single_seq_NA_length [OF k a b] show "\<exists>y. scan_single_seq_NA m s k = Inr y" by blast
  qed
qed

subsection \<open>The two paths of the orchestrator\<close>

lemma na_index_sum':
  "0 < sum_list (map (\<lambda>s. snd (encode_chars alph s [] 0)) seq_vecs) \<longleftrightarrow>
     (\<exists>s \<in> set seq_vecs. \<exists>c \<in> set s. c \<notin> set alph)"
  using na_index_sum [of alph seq_vecs] by (simp add: comp_def)

lemma internal_NA_path:
  assumes "\<exists>s \<in> set seq_vecs. \<exists>c \<in> set s. c \<notin> set alph"
  shows "scan_sequences_cpp_internal score_mats seq_vecs k alph nthreads warnNA =
     (case (if k > 1
            then deal_with_higher_k_NA (map (\<lambda>s. fst (encode_chars alph s [] 0)) seq_vecs) k
                   (int (length alph))
            else Inr (map (\<lambda>s. fst (encode_chars alph s [] 0)) seq_vecs)) of
        Inl e \<Rightarrow> Inl e
      | Inr seq_ints \<Rightarrow>
          (case for_each (\<lambda>m. for_each (\<lambda>s. scan_single_seq_NA m s k) seq_ints) score_mats of
             Inl e \<Rightarrow> Inl e
           | Inr out \<Rightarrow> Inr (if warnNA then [na_warning] else [], out)))"
  using assms
  by (simp add: scan_sequences_cpp_internal_def Let_def comp_def na_index_sum'
      cong: sum.case_cong)

lemma internal_strict_path:
  assumes "\<not> (\<exists>s \<in> set seq_vecs. \<exists>c \<in> set s. c \<notin> set alph)"
  shows "scan_sequences_cpp_internal score_mats seq_vecs k alph nthreads warnNA =
     (case (if k > 1
            then deal_with_higher_k (map (\<lambda>s. fst (encode_chars alph s [] 0)) seq_vecs) k
                   (int (length alph))
            else Inr (map (\<lambda>s. fst (encode_chars alph s [] 0)) seq_vecs)) of
        Inl e \<Rightarrow> Inl e
      | Inr seq_ints \<Rightarrow>
          (case for_each (\<lambda>m. for_each (\<lambda>s. scan_single_seq m s k) seq_ints) score_mats of
             Inl e \<Rightarrow> Inl e
           | Inr out \<Rightarrow> Inr ([], out)))"
  using assms
  by (simp add: scan_sequences_cpp_internal_def Let_def comp_def na_index_sum'
      cong: sum.case_cong)

subsection \<open>The orchestrator returns under the size conditions\<close>

lemma scan_all_lengths:
  assumes k: "1 \<le> k"
    and fit: "\<forall>m \<in> set score_mats. \<forall>s \<in> set streams.
                int (length m) + k \<le> int (length s) + 2 \<and> length s + 1 < 2 ^ 64"
    and sym: "\<forall>s \<in> set streams. \<forall>p < nat (int (length s) - k + 1). 0 \<le> s ! p \<and> s ! p < N"
    and rows: "\<forall>m \<in> set score_mats. \<forall>row \<in> set m. N \<le> int (length row)"
  shows "\<exists>out. for_each (\<lambda>m. for_each (\<lambda>s. scan_single_seq m s k) streams) score_mats = Inr out \<and>
           length out = length score_mats \<and>
           (\<forall>i < length score_mats. length (out ! i) = length streams \<and>
              (\<forall>j < length streams.
                 int (length (out ! i ! j)) =
                   int (length (streams ! j)) - k + 1 - int (length (score_mats ! i)) + 1))"
proof -
  from scan_all_total [OF assms] obtain out
    where out: "for_each (\<lambda>m. for_each (\<lambda>s. scan_single_seq m s k) streams) score_mats = Inr out"
    by blast
  then have len: "length out = length score_mats"
    and each: "\<And>i. i < length score_mats \<Longrightarrow>
                 for_each (\<lambda>s. scan_single_seq (score_mats ! i) s k) streams = Inr (out ! i)"
    by (simp_all add: for_each_Inr_iff)
  have "length (out ! i) = length streams \<and>
        (\<forall>j < length streams.
           int (length (out ! i ! j)) =
             int (length (streams ! j)) - k + 1 - int (length (score_mats ! i)) + 1)"
    if i: "i < length score_mats" for i
  proof -
    from each [OF i] have l: "length (out ! i) = length streams"
      and pair: "\<And>j. j < length streams \<Longrightarrow>
                   scan_single_seq (score_mats ! i) (streams ! j) k = Inr (out ! i ! j)"
      by (simp_all add: for_each_Inr_iff)
    have "int (length (out ! i ! j)) =
            int (length (streams ! j)) - k + 1 - int (length (score_mats ! i)) + 1"
      if j: "j < length streams" for j
    proof -
      have m: "score_mats ! i \<in> set score_mats" and s: "streams ! j \<in> set streams"
        using i j by simp_all
      have a: "int (length (score_mats ! i)) + k \<le> int (length (streams ! j)) + 2"
        and b: "length (streams ! j) + 1 < 2 ^ 64"
        using fit m s by auto
      have "\<forall>p < nat (int (length (streams ! j)) - k + 1). \<forall>row \<in> set (score_mats ! i).
              0 \<le> streams ! j ! p \<and> streams ! j ! p < int (length row)"
        using sym rows m s by fastforce
      from scan_single_seq_length [OF k a b this] pair [OF j] show ?thesis by auto
    qed
    with l show ?thesis by blast
  qed
  with out len show ?thesis by blast
qed

lemma scan_all_NA_lengths:
  assumes k: "1 \<le> k"
    and fit: "\<forall>m \<in> set score_mats. \<forall>s \<in> set streams.
                int (length m) + k \<le> int (length s) + 2 \<and> length s + 1 < 2 ^ 64"
    and sym: "\<forall>s \<in> set streams. \<forall>p < nat (int (length s) - k + 1). s ! p < 0 \<or> s ! p < N"
    and rows: "\<forall>m \<in> set score_mats. \<forall>row \<in> set m. N \<le> int (length row)"
  shows "\<exists>out. for_each (\<lambda>m. for_each (\<lambda>s. scan_single_seq_NA m s k) streams) score_mats = Inr out \<and>
           length out = length score_mats \<and>
           (\<forall>i < length score_mats. length (out ! i) = length streams \<and>
              (\<forall>j < length streams.
                 int (length (out ! i ! j)) =
                   int (length (streams ! j)) - k + 1 - int (length (score_mats ! i)) + 1))"
proof -
  from scan_all_NA_total [OF assms] obtain out
    where out: "for_each (\<lambda>m. for_each (\<lambda>s. scan_single_seq_NA m s k) streams) score_mats = Inr out"
    by blast
  then have len: "length out = length score_mats"
    and each: "\<And>i. i < length score_mats \<Longrightarrow>
                 for_each (\<lambda>s. scan_single_seq_NA (score_mats ! i) s k) streams = Inr (out ! i)"
    by (simp_all add: for_each_Inr_iff)
  have "length (out ! i) = length streams \<and>
        (\<forall>j < length streams.
           int (length (out ! i ! j)) =
             int (length (streams ! j)) - k + 1 - int (length (score_mats ! i)) + 1)"
    if i: "i < length score_mats" for i
  proof -
    from each [OF i] have l: "length (out ! i) = length streams"
      and pair: "\<And>j. j < length streams \<Longrightarrow>
                   scan_single_seq_NA (score_mats ! i) (streams ! j) k = Inr (out ! i ! j)"
      by (simp_all add: for_each_Inr_iff)
    have "int (length (out ! i ! j)) =
            int (length (streams ! j)) - k + 1 - int (length (score_mats ! i)) + 1"
      if j: "j < length streams" for j
    proof -
      have m: "score_mats ! i \<in> set score_mats" and s: "streams ! j \<in> set streams"
        using i j by simp_all
      have a: "int (length (score_mats ! i)) + k \<le> int (length (streams ! j)) + 2"
        and b: "length (streams ! j) + 1 < 2 ^ 64"
        using fit m s by auto
      have "\<forall>p < nat (int (length (streams ! j)) - k + 1). \<forall>row \<in> set (score_mats ! i).
              streams ! j ! p < 0 \<or> streams ! j ! p < int (length row)"
        using sym rows m s by fastforce
      from scan_single_seq_NA_length [OF k a b this] pair [OF j] show ?thesis by auto
    qed
    with l show ?thesis by blast
  qed
  with out len show ?thesis by blast
qed

lemma scan_sequences_cpp_internal_total:
  assumes k: "1 \<le> k"
    and fit: "\<forall>m \<in> set score_mats. \<forall>s \<in> set seq_vecs. int (length m) + k \<le> int (length s) + 1"
    and klen: "\<forall>s \<in> set seq_vecs. k \<le> int (length s) + 1 \<and> length s + 1 < 2 ^ 64"
    and rows: "\<forall>m \<in> set score_mats. \<forall>row \<in> set m. int (length alph) ^ nat k \<le> int (length row)"
    and npow: "1 < k \<longrightarrow> int (length alph) ^ nat k \<le> 2 ^ 31"
  shows "\<exists>out. scan_sequences_cpp_internal score_mats seq_vecs k alph nthreads warnNA =
            Inr (if (\<exists>s \<in> set seq_vecs. \<exists>c \<in> set s. c \<notin> set alph) \<and> warnNA
                 then [na_warning] else [], out) \<and>
           length out = length score_mats \<and>
           (\<forall>i < length score_mats. length (out ! i) = length seq_vecs \<and>
              (\<forall>j < length seq_vecs.
                 int (length (out ! i ! j)) =
                   int (length (seq_vecs ! j)) - k + 1 - int (length (score_mats ! i)) + 1))"
proof -
  define enc where "enc = map (\<lambda>s. fst (encode_chars alph s [] 0)) seq_vecs"
  define n where "n = int (length alph)"
  have enc_len: "length enc = length seq_vecs"
    and enc_nth: "\<And>j. j < length seq_vecs \<Longrightarrow> length (enc ! j) = length (seq_vecs ! j)"
    by (simp_all add: enc_def encode_chars_fst_length)
  have enc_set: "\<exists>j < length seq_vecs. s = enc ! j" if "s \<in> set enc" for s
    using that enc_len by (metis in_set_conv_nth)
  have klen': "\<forall>s \<in> set enc. k \<le> int (length s) + 1 \<and> length s + 1 < 2 ^ 64"
  proof
    fix s assume "s \<in> set enc"
    then obtain j where j: "j < length seq_vecs" "s = enc ! j" using enc_set by blast
    then have "length s = length (seq_vecs ! j)" by (simp add: enc_nth)
    moreover have "seq_vecs ! j \<in> set seq_vecs" using j by simp
    ultimately show "k \<le> int (length s) + 1 \<and> length s + 1 < 2 ^ 64" using klen by auto
  qed
  have sym: "\<forall>s \<in> set enc. \<forall>x \<in> set s. - 1 \<le> x \<and> x < n"
    unfolding enc_def n_def using encode_chars_symbols [of "[]" alph] by auto
  show ?thesis
  proof (cases "\<exists>s \<in> set seq_vecs. \<exists>c \<in> set s. c \<notin> set alph")
    case True
    from recode_NA_total [OF k klen' sym npow [folded n_def]]
    obtain s' where s': "(if k > 1 then deal_with_higher_k_NA enc k n else Inr enc) = Inr s'"
      and len: "length s' = length enc"
      and each: "\<And>j. j < length enc \<Longrightarrow> length (s' ! j) = length (enc ! j) \<and>
              (\<forall>p < nat (int (length (enc ! j)) - k + 1). s' ! j ! p < 0 \<or> s' ! j ! p < n ^ nat k)"
      by blast
    have s'_set: "\<exists>j < length seq_vecs. s = s' ! j" if "s \<in> set s'" for s
      using that len enc_len by (metis in_set_conv_nth)
    have fit': "\<forall>m \<in> set score_mats. \<forall>s \<in> set s'.
                int (length m) + k \<le> int (length s) + 2 \<and> length s + 1 < 2 ^ 64"
    proof (intro ballI)
      fix m s assume m: "m \<in> set score_mats" and "s \<in> set s'"
      then obtain j where j: "j < length seq_vecs" "s = s' ! j" using s'_set by blast
      then have "length s = length (seq_vecs ! j)" using each [of j] enc_len enc_nth by simp
      moreover have "seq_vecs ! j \<in> set seq_vecs" using j by simp
      ultimately show "int (length m) + k \<le> int (length s) + 2 \<and> length s + 1 < 2 ^ 64"
        using fit klen m by fastforce
    qed
    have sym': "\<forall>s \<in> set s'. \<forall>p < nat (int (length s) - k + 1). s ! p < 0 \<or> s ! p < n ^ nat k"
    proof
      fix s assume "s \<in> set s'"
      then obtain j where j: "j < length seq_vecs" "s = s' ! j" using s'_set by blast
      with each [of j] enc_len
      show "\<forall>p < nat (int (length s) - k + 1). s ! p < 0 \<or> s ! p < n ^ nat k" by simp
    qed
    from scan_all_NA_lengths [OF k fit' sym' rows [folded n_def]]
    obtain out where out:
      "for_each (\<lambda>m. for_each (\<lambda>s. scan_single_seq_NA m s k) s') score_mats = Inr out"
      "length out = length score_mats"
      "\<forall>i < length score_mats. length (out ! i) = length s' \<and>
         (\<forall>j < length s'. int (length (out ! i ! j)) =
            int (length (s' ! j)) - k + 1 - int (length (score_mats ! i)) + 1)"
      by blast
    have run: "scan_sequences_cpp_internal score_mats seq_vecs k alph nthreads warnNA =
            Inr (if warnNA then [na_warning] else [], out)"
      using s' out(1) unfolding internal_NA_path [OF True] enc_def [symmetric] n_def [symmetric]
      by simp
    have "length (out ! i) = length seq_vecs \<and>
          (\<forall>j < length seq_vecs. int (length (out ! i ! j)) =
             int (length (seq_vecs ! j)) - k + 1 - int (length (score_mats ! i)) + 1)"
      if "i < length score_mats" for i
      using out(3) that len enc_len each enc_nth by auto
    with run out(2) True show ?thesis by auto
  next
    case False
    have symc: "\<forall>s \<in> set enc. \<forall>x \<in> set s. 0 \<le> x \<and> x < n"
    proof (intro ballI)
      fix s x assume s: "s \<in> set enc" and x: "x \<in> set s"
      from s obtain t where t: "t \<in> set seq_vecs" "s = fst (encode_chars alph t [] 0)"
        unfolding enc_def by auto
      with False have "\<forall>c \<in> set t. c \<in> set alph" by blast
      from encode_chars_clean [OF _ this, of "[]" 0] t x have "0 \<le> x" by simp
      with sym s x show "0 \<le> x \<and> x < n" by blast
    qed
    from recode_strict_total [OF k klen' symc npow [folded n_def]]
    obtain s' where s': "(if k > 1 then deal_with_higher_k enc k n else Inr enc) = Inr s'"
      and len: "length s' = length enc"
      and each: "\<And>j. j < length enc \<Longrightarrow> length (s' ! j) = length (enc ! j) \<and>
              (\<forall>p < nat (int (length (enc ! j)) - k + 1). 0 \<le> s' ! j ! p \<and> s' ! j ! p < n ^ nat k)"
      by blast
    have s'_set: "\<exists>j < length seq_vecs. s = s' ! j" if "s \<in> set s'" for s
      using that len enc_len by (metis in_set_conv_nth)
    have fit': "\<forall>m \<in> set score_mats. \<forall>s \<in> set s'.
                int (length m) + k \<le> int (length s) + 2 \<and> length s + 1 < 2 ^ 64"
    proof (intro ballI)
      fix m s assume m: "m \<in> set score_mats" and "s \<in> set s'"
      then obtain j where j: "j < length seq_vecs" "s = s' ! j" using s'_set by blast
      then have "length s = length (seq_vecs ! j)" using each [of j] enc_len enc_nth by simp
      moreover have "seq_vecs ! j \<in> set seq_vecs" using j by simp
      ultimately show "int (length m) + k \<le> int (length s) + 2 \<and> length s + 1 < 2 ^ 64"
        using fit klen m by fastforce
    qed
    have sym': "\<forall>s \<in> set s'. \<forall>p < nat (int (length s) - k + 1). 0 \<le> s ! p \<and> s ! p < n ^ nat k"
    proof
      fix s assume "s \<in> set s'"
      then obtain j where j: "j < length seq_vecs" "s = s' ! j" using s'_set by blast
      with each [of j] enc_len
      show "\<forall>p < nat (int (length s) - k + 1). 0 \<le> s ! p \<and> s ! p < n ^ nat k" by simp
    qed
    from scan_all_lengths [OF k fit' sym' rows [folded n_def]]
    obtain out where out:
      "for_each (\<lambda>m. for_each (\<lambda>s. scan_single_seq m s k) s') score_mats = Inr out"
      "length out = length score_mats"
      "\<forall>i < length score_mats. length (out ! i) = length s' \<and>
         (\<forall>j < length s'. int (length (out ! i ! j)) =
            int (length (s' ! j)) - k + 1 - int (length (score_mats ! i)) + 1)"
      by blast
    have run: "scan_sequences_cpp_internal score_mats seq_vecs k alph nthreads warnNA =
            Inr ([], out)"
      using s' out(1) unfolding internal_strict_path [OF False] enc_def [symmetric] n_def [symmetric]
      by simp
    have "length (out ! i) = length seq_vecs \<and>
          (\<forall>j < length seq_vecs. int (length (out ! i ! j)) =
             int (length (seq_vecs ! j)) - k + 1 - int (length (score_mats ! i)) + 1)"
      if "i < length score_mats" for i
      using out(3) that len enc_len each enc_nth by auto
    with run out(2) False show ?thesis by auto
  qed
qed

subsection \<open>Unrecognized characters\<close>



subsection \<open>Every returned score lies inside its sequence\<close>

lemma vec_set_length: "vec_set v i x = Inr v' \<Longrightarrow> length v' = length v"
  by (auto simp: vec_set_def split: if_splits)

lemma higher_k_positions_length:
  "higher_k_positions k n bound j s = Inr s' \<Longrightarrow> length s' = length s"
proof (induction k n bound j s rule: higher_k_positions.induct)
  case (1 k n bound j s)
  from "1.prems" show ?case
    by (subst (asm) higher_k_positions.simps)
       (auto split: if_splits sum.splits dest!: "1.IH" dest: vec_set_length)
qed

lemma higher_k_NA_positions_length:
  "higher_k_NA_positions k n bound j s = Inr s' \<Longrightarrow> length s' = length s"
proof (induction k n bound j s rule: higher_k_NA_positions.induct)
  case (1 k n bound j s)
  from "1.prems" show ?case
    by (subst (asm) higher_k_NA_positions.simps)
       (auto split: if_splits sum.splits dest!: "1.IH" dest: vec_set_length)
qed

lemma deal_with_higher_k_lengths:
  "deal_with_higher_k seq_ints k n = Inr s' \<Longrightarrow>
     length s' = length seq_ints \<and> (\<forall>j < length seq_ints. length (s' ! j) = length (seq_ints ! j))"
  by (auto simp: deal_with_higher_k_def for_each_Inr_iff higher_k_seq_def
      dest!: higher_k_positions_length)

lemma deal_with_higher_k_NA_lengths:
  "deal_with_higher_k_NA seq_ints k n = Inr s' \<Longrightarrow>
     length s' = length seq_ints \<and> (\<forall>j < length seq_ints. length (s' ! j) = length (seq_ints ! j))"
  by (auto simp: deal_with_higher_k_NA_def for_each_Inr_iff higher_k_NA_seq_def
      dest!: higher_k_NA_positions_length)

lemma scan_single_seq_fits:
  assumes "scan_single_seq motif sequence k = Inr r" and "p < length r" and "motif \<noteq> []"
  shows "p + length motif \<le> length sequence"
proof -
  from scan_loop_Inr [OF assms(1) [unfolded scan_single_seq_def]] assms(2)
  obtain v where "window_score motif sequence p 0 0 = Inr v" by auto
  from window_score_bounds [OF this assms(3)] show ?thesis by simp
qed

lemma scan_single_seq_NA_fits:
  assumes "scan_single_seq_NA motif sequence k = Inr r" and "p < length r" and "motif \<noteq> []"
  shows "p + length motif \<le> length sequence"
proof -
  from scan_loop_NA_Inr [OF assms(1) [unfolded scan_single_seq_NA_def]] assms(2)
  obtain v where "window_score_NA motif sequence p 0 0 = Inr v" by auto
  from window_score_NA_bounds [OF this assms(3)] show ?thesis by simp
qed

lemma scan_sequences_cpp_internal_fits:
  assumes "scan_sequences_cpp_internal score_mats seq_vecs k alph nthreads warnNA = Inr (w, out)"
  shows "length out = length score_mats \<and>
     (\<forall>i < length score_mats. length (out ! i) = length seq_vecs \<and>
        (\<forall>j < length seq_vecs. \<forall>p < length (out ! i ! j).
           score_mats ! i \<noteq> [] \<longrightarrow> p + length (score_mats ! i) \<le> length (seq_vecs ! j)))"
proof -
  define enc where "enc = map (\<lambda>s. fst (encode_chars alph s [] 0)) seq_vecs"
  have enc_len: "length enc = length seq_vecs"
    and enc_nth: "\<And>j. j < length seq_vecs \<Longrightarrow> length (enc ! j) = length (seq_vecs ! j)"
    by (simp_all add: enc_def encode_chars_fst_length)
  show ?thesis
  proof (cases "\<exists>s \<in> set seq_vecs. \<exists>c \<in> set s. c \<notin> set alph")
    case True
    from assms [unfolded internal_NA_path [OF True], folded enc_def]
    obtain s' where
      s': "(if k > 1 then deal_with_higher_k_NA enc k (int (length alph)) else Inr enc) = Inr s'"
      and scan: "for_each (\<lambda>m. for_each (\<lambda>s. scan_single_seq_NA m s k) s') score_mats = Inr out"
      by (auto split: sum.splits)
    from s' enc_len enc_nth
    have len: "length s' = length seq_vecs"
      and nth: "\<And>j. j < length seq_vecs \<Longrightarrow> length (s' ! j) = length (seq_vecs ! j)"
      by (auto split: if_splits dest!: deal_with_higher_k_NA_lengths)
    from scan have out: "length out = length score_mats"
      and each: "\<And>i j. i < length score_mats \<Longrightarrow> length (out ! i) = length s' \<and>
          (j < length s' \<longrightarrow> scan_single_seq_NA (score_mats ! i) (s' ! j) k = Inr (out ! i ! j))"
      by (auto simp: for_each_Inr_iff)
    have "p + length (score_mats ! i) \<le> length (seq_vecs ! j)"
      if "i < length score_mats" "j < length seq_vecs" "p < length (out ! i ! j)"
         "score_mats ! i \<noteq> []" for i j p
      using scan_single_seq_NA_fits [of "score_mats ! i" "s' ! j" k "out ! i ! j" p]
        each [of i j] that len nth [of j] by auto
    with out each len show ?thesis by auto
  next
    case False
    from assms [unfolded internal_strict_path [OF False], folded enc_def]
    obtain s' where
      s': "(if k > 1 then deal_with_higher_k enc k (int (length alph)) else Inr enc) = Inr s'"
      and scan: "for_each (\<lambda>m. for_each (\<lambda>s. scan_single_seq m s k) s') score_mats = Inr out"
      by (auto split: sum.splits)
    from s' enc_len enc_nth
    have len: "length s' = length seq_vecs"
      and nth: "\<And>j. j < length seq_vecs \<Longrightarrow> length (s' ! j) = length (seq_vecs ! j)"
      by (auto split: if_splits dest!: deal_with_higher_k_lengths)
    from scan have out: "length out = length score_mats"
      and each: "\<And>i j. i < length score_mats \<Longrightarrow> length (out ! i) = length s' \<and>
          (j < length s' \<longrightarrow> scan_single_seq (score_mats ! i) (s' ! j) k = Inr (out ! i ! j))"
      by (auto simp: for_each_Inr_iff)
    have "p + length (score_mats ! i) \<le> length (seq_vecs ! j)"
      if "i < length score_mats" "j < length seq_vecs" "p < length (out ! i ! j)"
         "score_mats ! i \<noteq> []" for i j p
      using scan_single_seq_fits [of "score_mats ! i" "s' ! j" k "out ! i ! j" p]
        each [of i j] that len nth [of j] by auto
    with out each len show ?thesis by auto
  qed
qed

subsection \<open>The rows of format_results and the matched substrings\<close>

lemma format_positions_hits:
  "format_positions scores motifs i j b xs = Inr hs \<Longrightarrow> h \<in> set hs \<Longrightarrow>
     \<exists>p < length xs. i < length motifs \<and>
       h = \<lparr>hit_motif = int i + 1, hit_sequence = int j + 1, hit_start = int (b + p) + 1,
            hit_stop = int (b + p) + int (length (motifs ! i)), hit_score = xs ! p\<rparr>"
proof (induction xs arbitrary: b hs)
  case Nil
  then show ?case by simp
next
  case (Cons x xs)
  from Cons.prems(1) obtain t where t: "vec_at scores i = Inr t"
    by (cases "vec_at scores i") auto
  show ?case
  proof (cases "x \<ge> t")
    case True
    with Cons.prems(1) t obtain mo hs' where mo: "vec_at motifs i = Inr mo"
      and rest: "format_positions scores motifs i j (Suc b) xs = Inr hs'"
      and hs: "hs = \<lparr>hit_motif = int i + 1, hit_sequence = int j + 1, hit_start = int b + 1,
                     hit_stop = int b + int (length mo), hit_score = x\<rparr> # hs'"
      by (auto split: sum.splits)
    from mo have i: "i < length motifs" "mo = motifs ! i"
      by (auto simp: vec_at_def split: if_splits)
    from Cons.prems(2) hs consider
      "h = \<lparr>hit_motif = int i + 1, hit_sequence = int j + 1, hit_start = int b + 1,
                     hit_stop = int b + int (length mo), hit_score = x\<rparr>" | "h \<in> set hs'"
      by auto
    then show ?thesis
    proof cases
      case 1
      with i show ?thesis by (intro exI [of _ 0]) simp
    next
      case 2
      from Cons.IH [OF rest 2] obtain p where "p < length xs" "i < length motifs"
        "h = \<lparr>hit_motif = int i + 1, hit_sequence = int j + 1, hit_start = int (Suc b + p) + 1,
            hit_stop = int (Suc b + p) + int (length (motifs ! i)), hit_score = xs ! p\<rparr>"
        by blast
      then show ?thesis by (intro exI [of _ "Suc p"]) simp
    qed
  next
    case False
    with Cons.prems(1) t have rest: "format_positions scores motifs i j (Suc b) xs = Inr hs"
      by simp
    from Cons.IH [OF rest Cons.prems(2)] obtain p where "p < length xs" "i < length motifs"
        "h = \<lparr>hit_motif = int i + 1, hit_sequence = int j + 1, hit_start = int (Suc b + p) + 1,
            hit_stop = int (Suc b + p) + int (length (motifs ! i)), hit_score = xs ! p\<rparr>"
      by blast
    then show ?thesis by (intro exI [of _ "Suc p"]) simp
  qed
qed

lemma format_sequences_hits:
  "format_sequences scores motifs i j vs = Inr hs \<Longrightarrow> h \<in> set hs \<Longrightarrow>
     \<exists>q < length vs. \<exists>p < length (vs ! q). i < length motifs \<and>
       h = \<lparr>hit_motif = int i + 1, hit_sequence = int (j + q) + 1, hit_start = int p + 1,
            hit_stop = int p + int (length (motifs ! i)), hit_score = vs ! q ! p\<rparr>"
proof (induction vs arbitrary: j hs)
  case Nil
  then show ?case by simp
next
  case (Cons v vs)
  from Cons.prems(1) obtain h1 h2 where h1: "format_positions scores motifs i j 0 v = Inr h1"
    and h2: "format_sequences scores motifs i (Suc j) vs = Inr h2" and hs: "hs = h1 @ h2"
    by (auto split: sum.splits)
  from Cons.prems(2) hs consider "h \<in> set h1" | "h \<in> set h2" by auto
  then show ?case
  proof cases
    case 1
    from format_positions_hits [OF h1 1] obtain p where "p < length v" "i < length motifs"
      "h = \<lparr>hit_motif = int i + 1, hit_sequence = int j + 1, hit_start = int (0 + p) + 1,
            hit_stop = int (0 + p) + int (length (motifs ! i)), hit_score = v ! p\<rparr>"
      by blast
    then show ?thesis by (intro exI [of _ 0] exI [of _ p]) simp
  next
    case 2
    from Cons.IH [OF h2 2] obtain q p where "q < length vs" "p < length (vs ! q)"
      "i < length motifs"
      "h = \<lparr>hit_motif = int i + 1, hit_sequence = int (Suc j + q) + 1, hit_start = int p + 1,
            hit_stop = int p + int (length (motifs ! i)), hit_score = vs ! q ! p\<rparr>"
      by blast
    then show ?thesis by (intro exI [of _ "Suc q"] exI [of _ p]) simp
  qed
qed

lemma format_motifs_hits:
  "format_motifs scores motifs i ms = Inr hs \<Longrightarrow> h \<in> set hs \<Longrightarrow>
     \<exists>r < length ms. \<exists>q < length (ms ! r). \<exists>p < length (ms ! r ! q). i + r < length motifs \<and>
       h = \<lparr>hit_motif = int (i + r) + 1, hit_sequence = int q + 1, hit_start = int p + 1,
            hit_stop = int p + int (length (motifs ! (i + r))), hit_score = ms ! r ! q ! p\<rparr>"
proof (induction ms arbitrary: i hs)
  case Nil
  then show ?case by simp
next
  case (Cons m ms)
  from Cons.prems(1) obtain h1 h2 where h1: "format_sequences scores motifs i 0 m = Inr h1"
    and h2: "format_motifs scores motifs (Suc i) ms = Inr h2" and hs: "hs = h1 @ h2"
    by (auto split: sum.splits)
  from Cons.prems(2) hs consider "h \<in> set h1" | "h \<in> set h2" by auto
  then show ?case
  proof cases
    case 1
    from format_sequences_hits [OF h1 1] obtain q p where "q < length m" "p < length (m ! q)"
      "i < length motifs"
      "h = \<lparr>hit_motif = int i + 1, hit_sequence = int (0 + q) + 1, hit_start = int p + 1,
            hit_stop = int p + int (length (motifs ! i)), hit_score = m ! q ! p\<rparr>"
      by blast
    then show ?thesis by (intro exI [of _ 0] exI [of _ q] exI [of _ p]) simp
  next
    case 2
    from Cons.IH [OF h2 2] obtain r q p where "r < length ms" "q < length (ms ! r)"
      "p < length (ms ! r ! q)" "Suc i + r < length motifs"
      "h = \<lparr>hit_motif = int (Suc i + r) + 1, hit_sequence = int q + 1, hit_start = int p + 1,
            hit_stop = int p + int (length (motifs ! (Suc i + r))), hit_score = ms ! r ! q ! p\<rparr>"
      by blast
    then show ?thesis by (intro exI [of _ "Suc r"] exI [of _ q] exI [of _ p]) simp
  qed
qed


subsection \<open>The coordinates of the hits\<close>





subsection \<open>Thresholds and rescaled scores\<close>

lemma double_to_int_range: "- (2 ^ 31) \<le> double_to_int x \<and> double_to_int x < 2 ^ 31"
  by (simp add: double_to_int_def Let_def)

lemma rescale_error:
  assumes "\<bar>s\<bar> \<le> 2 ^ 31"
  shows "\<bar>round_double (real_of_int s / 1000) - real_of_int s / 1000\<bar> \<le> 1 / 2 ^ 32"
proof (cases "s = 0")
  case True
  then show ?thesis by (simp add: round_double_zero)
next
  case False
  define x where "x = real_of_int s / 1000"
  have x0: "x \<noteq> 0" using False by (simp add: x_def)
  have "\<bar>real_of_int s\<bar> \<le> 2 ^ 31"
    using assms by (metis of_int_abs of_int_le_numeral_power_cancel_iff)
  then have "\<bar>x\<bar> < 2 ^ 22" by (simp add: x_def)
  also have "(2::real) ^ 22 = 2 powr of_int 22" by (simp add: powr_realpow [symmetric])
  finally have "double_exponent x \<le> 22 - 1" using x0 by (intro double_exponent_le) auto
  then have "2 powr of_int (double_exponent x - 53) \<le> (2::real) powr of_int (- 32)"
    by (intro powr_mono) auto
  also have "(2::real) powr of_int (- 32) = 1 / 2 ^ 32"
    by (simp add: powr_minus powr_realpow [symmetric] divide_simps)
  finally show ?thesis using round_double_error [OF x0] by (simp add: x_def)
qed

lemma rescale_less:
  assumes "\<bar>s\<bar> \<le> 2 ^ 31" and "\<bar>t\<bar> \<le> 2 ^ 31" and "s < t"
  shows "round_double (real_of_int s / 1000) < round_double (real_of_int t / 1000)"
proof -
  from assms(3) have "real_of_int s + 1 \<le> real_of_int t" by linarith
  then have "real_of_int s / 1000 + 1 / 1000 \<le> real_of_int t / 1000" by simp
  moreover have "(1::real) / 2 ^ 32 + 1 / 2 ^ 32 < 1 / 1000" by simp
  ultimately show ?thesis
    using rescale_error [OF assms(1)] rescale_error [OF assms(2)] by linarith
qed

lemma rescale_decision:
  assumes "\<bar>s\<bar> \<le> 2 ^ 31" and "\<bar>t\<bar> \<le> 2 ^ 31"
  shows "t \<le> s \<longleftrightarrow> round_double (real_of_int t / 1000) \<le> round_double (real_of_int s / 1000)"
proof (cases "t \<le> s")
  case True
  then consider "t = s" | "t < s" by linarith
  then show ?thesis
  proof cases
    case 1
    then show ?thesis by simp
  next
    case 2
    from rescale_less [OF assms(2,1) 2] True show ?thesis by simp
  qed
next
  case False
  then have "s < t" by simp
  from rescale_less [OF assms this] False show ?thesis by simp
qed

lemma format_positions_emits:
  "format_positions scores motifs i j b xs = Inr hs \<Longrightarrow> p < length xs \<Longrightarrow>
     (\<exists>h \<in> set hs. hit_start h = int (b + p) + 1) \<longleftrightarrow> scores ! i \<le> xs ! p"
proof (induction xs arbitrary: b p hs)
  case Nil
  then show ?case by simp
next
  case (Cons x xs)
  from Cons.prems(1) obtain t where t: "vec_at scores i = Inr t"
    by (cases "vec_at scores i") auto
  then have ti: "t = scores ! i" by (auto simp: vec_at_def split: if_splits)
  have "\<exists>hs'. format_positions scores motifs i j (Suc b) xs = Inr hs' \<and>
          (if x \<ge> t
           then \<exists>mo :: int list list. hs = \<lparr>hit_motif = int i + 1, hit_sequence = int j + 1,
                            hit_start = int b + 1, hit_stop = int b + int (length mo),
                            hit_score = x\<rparr> # hs'
           else hs = hs')"
    using Cons.prems(1) t by (auto split: sum.splits if_splits)
  then obtain hs' where rest: "format_positions scores motifs i j (Suc b) xs = Inr hs'"
    and hs: "if x \<ge> t
             then \<exists>mo :: int list list. hs = \<lparr>hit_motif = int i + 1, hit_sequence = int j + 1,
                              hit_start = int b + 1, hit_stop = int b + int (length mo),
                              hit_score = x\<rparr> # hs'
             else hs = hs'"
    by blast
  have later: "hit_start h \<noteq> int b + 1" if "h \<in> set hs'" for h
    using format_positions_hits [OF rest that] by auto
  show ?case
  proof (cases p)
    case 0
    show ?thesis
    proof (cases "x \<ge> t")
      case True
      with hs 0 ti show ?thesis by auto
    next
      case False
      with hs have "hs = hs'" by simp
      with later False 0 ti show ?thesis by auto
    qed
  next
    case (Suc p')
    with Cons.prems(2) have p': "p' < length xs" by simp
    from Cons.IH [OF rest p']
    have IH: "(\<exists>h \<in> set hs'. hit_start h = int (Suc b + p') + 1) \<longleftrightarrow> scores ! i \<le> xs ! p'" .
    have "(\<exists>h \<in> set hs. hit_start h = int (b + p) + 1) \<longleftrightarrow>
          (\<exists>h \<in> set hs'. hit_start h = int (Suc b + p') + 1)"
      using hs Suc by (auto split: if_splits)
    with IH Suc show ?thesis by simp
  qed
qed

lemma format_sequences_emits:
  "format_sequences scores motifs i j vs = Inr hs \<Longrightarrow> q < length vs \<Longrightarrow> p < length (vs ! q) \<Longrightarrow>
     (\<exists>h \<in> set hs. hit_sequence h = int (j + q) + 1 \<and> hit_start h = int p + 1) \<longleftrightarrow>
       scores ! i \<le> vs ! q ! p"
proof (induction vs arbitrary: j q hs)
  case Nil
  then show ?case by simp
next
  case (Cons v vs)
  from Cons.prems(1) obtain h1 h2 where h1: "format_positions scores motifs i j 0 v = Inr h1"
    and h2: "format_sequences scores motifs i (Suc j) vs = Inr h2" and hs: "hs = h1 @ h2"
    by (auto split: sum.splits)
  have first: "hit_sequence h = int j + 1" if "h \<in> set h1" for h
    using format_positions_hits [OF h1 that] by auto
  have later: "hit_sequence h \<noteq> int j + 1" if "h \<in> set h2" for h
    using format_sequences_hits [OF h2 that] by auto
  show ?case
  proof (cases q)
    case 0
    with Cons.prems(3) have p: "p < length v" by simp
    from format_positions_emits [OF h1 p]
    have "(\<exists>h \<in> set h1. hit_start h = int p + 1) \<longleftrightarrow> scores ! i \<le> v ! p" by simp
    moreover have "(\<exists>h \<in> set hs. hit_sequence h = int (j + q) + 1 \<and> hit_start h = int p + 1) \<longleftrightarrow>
                   (\<exists>h \<in> set h1. hit_start h = int p + 1)"
      using first later hs 0 by auto
    ultimately show ?thesis using 0 by simp
  next
    case (Suc q')
    with Cons.prems(2,3) have q': "q' < length vs" and p: "p < length (vs ! q')" by simp_all
    from Cons.IH [OF h2 q' p]
    have IH: "(\<exists>h \<in> set h2. hit_sequence h = int (Suc j + q') + 1 \<and> hit_start h = int p + 1) \<longleftrightarrow>
              scores ! i \<le> vs ! q' ! p" .
    have "(\<exists>h \<in> set hs. hit_sequence h = int (j + q) + 1 \<and> hit_start h = int p + 1) \<longleftrightarrow>
          (\<exists>h \<in> set h2. hit_sequence h = int (Suc j + q') + 1 \<and> hit_start h = int p + 1)"
      using first hs Suc by auto
    with IH Suc show ?thesis by simp
  qed
qed

lemma format_motifs_emits:
  "format_motifs scores motifs i ms = Inr hs \<Longrightarrow> r < length ms \<Longrightarrow> q < length (ms ! r) \<Longrightarrow>
   p < length (ms ! r ! q) \<Longrightarrow>
     (\<exists>h \<in> set hs. hit_motif h = int (i + r) + 1 \<and> hit_sequence h = int q + 1 \<and>
        hit_start h = int p + 1) \<longleftrightarrow>
       scores ! (i + r) \<le> ms ! r ! q ! p"
proof (induction ms arbitrary: i r hs)
  case Nil
  then show ?case by simp
next
  case (Cons m ms)
  from Cons.prems(1) obtain h1 h2 where h1: "format_sequences scores motifs i 0 m = Inr h1"
    and h2: "format_motifs scores motifs (Suc i) ms = Inr h2" and hs: "hs = h1 @ h2"
    by (auto split: sum.splits)
  have first: "hit_motif h = int i + 1" if "h \<in> set h1" for h
    using format_sequences_hits [OF h1 that] by auto
  have later: "hit_motif h \<noteq> int i + 1" if "h \<in> set h2" for h
    using format_motifs_hits [OF h2 that] by auto
  show ?case
  proof (cases r)
    case 0
    with Cons.prems(3,4) have q: "q < length m" and p: "p < length (m ! q)" by simp_all
    from format_sequences_emits [OF h1 q p]
    have "(\<exists>h \<in> set h1. hit_sequence h = int q + 1 \<and> hit_start h = int p + 1) \<longleftrightarrow>
          scores ! i \<le> m ! q ! p" by simp
    moreover have "(\<exists>h \<in> set hs. hit_motif h = int (i + r) + 1 \<and> hit_sequence h = int q + 1 \<and>
                      hit_start h = int p + 1) \<longleftrightarrow>
                   (\<exists>h \<in> set h1. hit_sequence h = int q + 1 \<and> hit_start h = int p + 1)"
      using first later hs 0 by auto
    ultimately show ?thesis using 0 by simp
  next
    case (Suc r')
    with Cons.prems(2,3,4) have r': "r' < length ms" and q: "q < length (ms ! r')"
      and p: "p < length (ms ! r' ! q)" by simp_all
    from Cons.IH [OF h2 r' q p]
    have IH: "(\<exists>h \<in> set h2. hit_motif h = int (Suc i + r') + 1 \<and> hit_sequence h = int q + 1 \<and>
                 hit_start h = int p + 1) \<longleftrightarrow> scores ! (Suc i + r') \<le> ms ! r' ! q ! p" .
    have "(\<exists>h \<in> set hs. hit_motif h = int (i + r) + 1 \<and> hit_sequence h = int q + 1 \<and>
             hit_start h = int p + 1) \<longleftrightarrow>
          (\<exists>h \<in> set h2. hit_motif h = int (Suc i + r') + 1 \<and> hit_sequence h = int q + 1 \<and>
             hit_start h = int p + 1)"
      using first hs Suc by auto
    with IH Suc show ?thesis by simp
  qed
qed

lemma format_motifs_score:
  assumes "format_motifs scores motifs 0 ms = Inr hs" and "h \<in> set hs"
    and "hit_motif h = int r + 1" and "hit_sequence h = int q + 1" and "hit_start h = int p + 1"
  shows "hit_score h = ms ! r ! q ! p"
  using format_motifs_hits [OF assms(1,2)] assms(3-5) by auto

text \<open>
  C7, as the code has it. The threshold \<open>t = 1 / 2048\<close> becomes the fixed-point
  threshold \<open>0\<close>: the product \<open>t * 1000 = 0.48828125\<close> is a \<open>double\<close>, so that it is not
  rounded, and the conversion to \<open>int\<close> drops it. A window with the fixed-point score
  \<open>0\<close> passes the comparison and is reported with the score \<open>0 / 1000 = 0\<close>, which is
  below \<open>t\<close>. The second call has a negative threshold \<open>t\<close>, the \<open>double\<close> next above
  the \<open>double\<close> nearest to \<open>-0.117\<close>, and that nearest \<open>double\<close> as the matrix entry of
  the letter \<open>A\<close>: both products with 1000 are rounded to \<open>-117\<close>, the window passes,
  and the reported score \<open>-117 / 1000\<close> is the matrix entry, below \<open>t\<close>.
\<close>

theorem rescaling_counterexample:
  "scan_sequences_cpp [[[0, 0]]] [''A''] 1 ''AC'' [1 / 2048] 1 False True =
     Inr ([], [\<lparr>df_motif = 1, df_sequence = 1, df_start = 1, df_stop = 1, df_score = 0,
                 df_match = ''A''\<rparr>]) \<and>
   double_to_int (round_double (1 / 2048 * 1000)) = 0 \<and>
   round_double (real_of_int 0 / 1000) < 1 / 2048 \<and>
   scan_sequences_cpp [[[- (8430738502437569 / 2 ^ 56), 0]]] [''A''] 1 ''AC''
       [- (8430738502437568 / 2 ^ 56)] 1 False True =
     Inr ([], [\<lparr>df_motif = 1, df_sequence = 1, df_start = 1, df_stop = 1,
                 df_score = - (8430738502437569 / 2 ^ 56), df_match = ''A''\<rparr>]) \<and>
   - (8430738502437569 / 2 ^ 56) < (- (8430738502437568 / 2 ^ 56) :: real)"
proof -
  have r: "round_double (125 / 256) = 125 / 256"
    using round_double_ratio [of 125 8] by simp
  have a: "scan_sequences_cpp [[[0, 0]]] [''A''] 1 ''AC'' [1 / 2048] 1 False True =
     Inr ([], [\<lparr>df_motif = 1, df_sequence = 1, df_start = 1, df_stop = 1, df_score = 0,
                 df_match = ''A''\<rparr>])"
    "double_to_int (round_double (1 / 2048 * 1000)) = 0"
    "round_double (real_of_int 0 / 1000) < 1 / 2048"
    by (simp_all add: scan_defs loop_simps r)
  have e: "round_double (- (1053842312804696125 / 9007199254740992)) = - 117"
    "round_double (- (16466286137573375 / 140737488355328)) = - 117"
    "round_double (- (117 / 1000)) = - (8430738502437569 / 72057594037927936)"
    using round_double_examples(2-4) by simp_all
  have b: "scan_sequences_cpp [[[- (8430738502437569 / 2 ^ 56), 0]]] [''A''] 1 ''AC''
       [- (8430738502437568 / 2 ^ 56)] 1 False True =
     Inr ([], [\<lparr>df_motif = 1, df_sequence = 1, df_start = 1, df_stop = 1,
                 df_score = - (8430738502437569 / 2 ^ 56), df_match = ''A''\<rparr>])"
    by (simp add: scan_defs loop_simps e)
  have c: "- (8430738502437569 / 2 ^ 56) < (- (8430738502437568 / 2 ^ 56) :: real)" by simp
  from a b c show ?thesis by (intro conjI)
qed

text \<open>
  C7, amended. \<open>format_results\<close> reports a hit of motif \<open>i\<close> at offset \<open>p\<close> of
  sequence \<open>j\<close> exactly when the fixed-point score \<open>s\<close> of that window and the
  fixed-point threshold \<open>T\<close> of the motif satisfy \<open>s / 1000 \<ge> T / 1000\<close>, both quotients
  computed in \<open>double\<close> as the score of the output is (\<open>s\<close> and \<open>T\<close> being 32-bit
  values): rescaling both fixed-point values preserves the decision \<open>s \<ge> T\<close>. The
  score of the reported row is \<open>s / 1000\<close>. The rescaled threshold \<open>T / 1000\<close> is not
  the threshold \<open>t\<close> of the caller in general, as \<open>T\<close> is the product \<open>t * 1000\<close>
  rounded to \<open>double\<close> and converted to \<open>int\<close>; the comparison of \<open>s / 1000\<close> with \<open>t\<close>
  is not part of this statement.
\<close>

theorem rescaling_decision:
  assumes "format_results out_pre scores motifs = Inr res"
    and "i < length out_pre" and "j < length (out_pre ! i)" and "p < length (out_pre ! i ! j)"
    and "\<bar>out_pre ! i ! j ! p\<bar> \<le> 2 ^ 31" and "\<bar>scores ! i\<bar> \<le> 2 ^ 31"
  shows "((\<exists>h \<in> set res. hit_motif h = int i + 1 \<and> hit_sequence h = int j + 1 \<and>
             hit_start h = int p + 1) \<longleftrightarrow>
          round_double (real_of_int (scores ! i) / 1000)
            \<le> round_double (real_of_int (out_pre ! i ! j ! p) / 1000)) \<and>
         (\<forall>h \<in> set res. hit_motif h = int i + 1 \<and> hit_sequence h = int j + 1 \<and>
             hit_start h = int p + 1 \<longrightarrow>
            df_score (make_row h m) = round_double (real_of_int (out_pre ! i ! j ! p) / 1000))"
proof
  from assms(1) have f: "format_motifs scores motifs 0 out_pre = Inr res"
    by (simp add: format_results_def)
  from format_motifs_emits [OF f assms(2-4)]
  have "(\<exists>h \<in> set res. hit_motif h = int i + 1 \<and> hit_sequence h = int j + 1 \<and>
           hit_start h = int p + 1) \<longleftrightarrow> scores ! i \<le> out_pre ! i ! j ! p"
    by simp
  also have "\<dots> \<longleftrightarrow> round_double (real_of_int (scores ! i) / 1000)
            \<le> round_double (real_of_int (out_pre ! i ! j ! p) / 1000)"
    using assms(5,6) by (rule rescale_decision)
  finally show "(\<exists>h \<in> set res. hit_motif h = int i + 1 \<and> hit_sequence h = int j + 1 \<and>
             hit_start h = int p + 1) \<longleftrightarrow>
          round_double (real_of_int (scores ! i) / 1000)
            \<le> round_double (real_of_int (out_pre ! i ! j ! p) / 1000)" .
  show "\<forall>h \<in> set res. hit_motif h = int i + 1 \<and> hit_sequence h = int j + 1 \<and>
             hit_start h = int p + 1 \<longrightarrow>
            df_score (make_row h m) = round_double (real_of_int (out_pre ! i ! j ! p) / 1000)"
    using format_motifs_score [OF f] by (auto simp: make_row_def)
qed

theorem rescaling_decision_witness:
  "format_results [[[400, 500]]] [500] [[[0]]] =
     Inr [\<lparr>hit_motif = 1, hit_sequence = 1, hit_start = 2, hit_stop = 2, hit_score = 500\<rparr>] \<and>
   \<not> round_double (500 / 1000) \<le> round_double (400 / 1000) \<and>
   df_score (make_row \<lparr>hit_motif = 1, hit_sequence = 1, hit_start = 2, hit_stop = 2,
                        hit_score = 500\<rparr> ''A'') = round_double (500 / 1000)"
proof -
  have r: "format_results [[[400, 500]]] [500] [[[0]]] =
     Inr [\<lparr>hit_motif = 1, hit_sequence = 1, hit_start = 2, hit_stop = 2, hit_score = 500\<rparr>]"
    by (simp add: format_results_def vec_at_def)
  from rescaling_decision [OF r, of 0 0 0 "''A''"] rescaling_decision [OF r, of 0 0 1 "''A''"] r
  show ?thesis by simp
qed

subsection \<open>The entry point returns under the size conditions\<close>

lemma format_positions_total:
  "i < length scores \<Longrightarrow> i < length motifs \<Longrightarrow>
     \<exists>hs. format_positions scores motifs i j b xs = Inr hs"
proof (induction xs arbitrary: b)
  case Nil
  show ?case by simp
next
  case (Cons x xs)
  from Cons.IH [OF Cons.prems, of "Suc b"] obtain hs
    where "format_positions scores motifs i j (Suc b) xs = Inr hs" by blast
  with Cons.prems show ?case by (simp add: vec_at_def)
qed

lemma format_sequences_total:
  "i < length scores \<Longrightarrow> i < length motifs \<Longrightarrow>
     \<exists>hs. format_sequences scores motifs i j vs = Inr hs"
proof (induction vs arbitrary: j)
  case Nil
  show ?case by simp
next
  case (Cons v vs)
  from format_positions_total [OF Cons.prems, of j 0 v] Cons.IH [OF Cons.prems, of "Suc j"]
  show ?case by auto
qed

lemma format_motifs_total:
  "i + length ms \<le> length scores \<Longrightarrow> i + length ms \<le> length motifs \<Longrightarrow>
     \<exists>hs. format_motifs scores motifs i ms = Inr hs"
proof (induction ms arbitrary: i)
  case Nil
  show ?case by simp
next
  case (Cons m ms)
  have "i < length scores" "i < length motifs" using Cons.prems by simp_all
  from format_sequences_total [OF this, of 0 m] Cons.IH [of "Suc i"] Cons.prems
  show ?case by auto
qed

lemma vec_at_append: "i < length v \<Longrightarrow> vec_at (v @ w) i = vec_at v i"
  by (simp add: vec_at_def nth_append)

lemma format_positions_append:
  "i < length scores \<Longrightarrow>
     format_positions (scores @ extra) motifs i j b xs = format_positions scores motifs i j b xs"
  by (induction xs arbitrary: b) (auto simp: vec_at_append split: sum.splits)

lemma format_sequences_append:
  "i < length scores \<Longrightarrow>
     format_sequences (scores @ extra) motifs i j vs = format_sequences scores motifs i j vs"
  by (induction vs arbitrary: j) (auto simp: format_positions_append split: sum.splits)

lemma format_motifs_append:
  "i + length ms \<le> length scores \<Longrightarrow>
     format_motifs (scores @ extra) motifs i ms = format_motifs scores motifs i ms"
proof (induction ms arbitrary: i)
  case Nil
  show ?case by simp
next
  case (Cons m ms)
  have "i < length scores" using Cons.prems by simp
  with Cons.IH [of "Suc i"] Cons.prems show ?case
    by (auto simp: format_sequences_append split: sum.splits)
qed

lemma surplus_thresholds_ignored:
  assumes "length score_mats \<le> length min_scores"
  shows "scan_sequences_cpp score_mats seq_vecs k alph (min_scores @ extra) nthreads
           allow_nonfinite warnNA =
         scan_sequences_cpp score_mats seq_vecs k alph min_scores nthreads allow_nonfinite warnNA"
proof -
  define m2 where "m2 = map (map (map (\<lambda>x. double_to_int (round_double (x * 1000))))) score_mats"
  have "format_results out_pre (map (\<lambda>x. double_to_int (round_double (x * 1000))) (min_scores @ extra)) m2 =
        format_results out_pre (map (\<lambda>x. double_to_int (round_double (x * 1000))) min_scores) m2"
    if "scan_sequences_cpp_internal m2 seq_vecs k alph nthreads warnNA = Inr (w, out_pre)"
    for w out_pre
  proof -
    from scan_sequences_cpp_internal_fits [OF that] have "length out_pre = length score_mats"
      by (simp add: m2_def)
    with assms show ?thesis
      by (simp add: format_results_def format_motifs_append)
  qed
  then show ?thesis
    unfolding scan_sequences_cpp_def Let_def m2_def [symmetric]
    by (auto split: sum.splits prod.splits)
qed

lemma scan_sequences_cpp_total:
  assumes k: "1 \<le> k"
    and fit: "\<forall>m \<in> set score_mats. \<forall>s \<in> set seq_vecs. int (length m) + k \<le> int (length s) + 1"
    and klen: "\<forall>s \<in> set seq_vecs. k \<le> int (length s) + 1 \<and> length s + 1 < 2 ^ 64"
    and rows: "\<forall>m \<in> set score_mats. \<forall>row \<in> set m. int (length alph) ^ nat k \<le> int (length row)"
    and ths: "length score_mats \<le> length min_scores"
    and npow: "1 < k \<longrightarrow> int (length alph) ^ nat k \<le> 2 ^ 31"
  shows "\<exists>rows. scan_sequences_cpp score_mats seq_vecs k alph min_scores nthreads allow_nonfinite warnNA
           = Inr (if (\<exists>s \<in> set seq_vecs. \<exists>c \<in> set s. c \<notin> set alph) \<and> warnNA
                  then [na_warning] else [], rows)"
proof -
  define m2 where "m2 = map (map (map (\<lambda>x. double_to_int (round_double (x * 1000))))) score_mats"
  define t2 where "t2 = map (\<lambda>x. double_to_int (round_double (x * 1000))) min_scores"
  define w where "w = (if (\<exists>s \<in> set seq_vecs. \<exists>c \<in> set s. c \<notin> set alph) \<and> warnNA
                  then [na_warning] else [])"
  have m2_len: "length m2 = length score_mats"
    and m2_nth: "\<And>i. i < length score_mats \<Longrightarrow> length (m2 ! i) = length (score_mats ! i)"
    by (simp_all add: m2_def)
  have check: "check_motif_sizes (map (\<lambda>m. int (length m)) score_mats)
                 (map (\<lambda>s. int (length s)) seq_vecs) = Inr ()"
  proof (cases "check_motif_sizes (map (\<lambda>m. int (length m)) score_mats)
                 (map (\<lambda>s. int (length s)) seq_vecs)")
    case (Inl e)
    then obtain m s where "m \<in> set score_mats" "s \<in> set seq_vecs" "length s < length m"
      using check_sizes_of_lengths [of score_mats seq_vecs e] by auto
    with fit k show ?thesis by force
  next
    case (Inr u)
    then show ?thesis by simp
  qed
  have fit2: "\<forall>m \<in> set m2. \<forall>s \<in> set seq_vecs. int (length m) + k \<le> int (length s) + 1"
    using fit unfolding m2_def by auto
  have rows2: "\<forall>m \<in> set m2. \<forall>row \<in> set m. int (length alph) ^ nat k \<le> int (length row)"
    using rows unfolding m2_def by auto
  from scan_sequences_cpp_internal_total [OF k fit2 klen rows2 npow, of nthreads warnNA]
  obtain out where out: "scan_sequences_cpp_internal m2 seq_vecs k alph nthreads warnNA = Inr (w, out)"
    and out_len: "length out = length m2"
    and out_nth: "\<And>i j. i < length m2 \<Longrightarrow> j < length seq_vecs \<Longrightarrow>
        int (length (out ! i ! j)) = int (length (seq_vecs ! j)) - k + 1 - int (length (m2 ! i)) + 1"
    unfolding w_def by blast
  from format_motifs_total [of 0 out t2 m2] out_len m2_len ths
  obtain res where res: "format_motifs t2 m2 0 out = Inr res" by (auto simp: t2_def)
  have "\<exists>m. get_match seq_vecs m2 h = Inr m" if "h \<in> set res" for h
  proof -
    from format_motifs_hits [OF res that]
    obtain i j p where i: "i < length out" and j: "j < length (out ! i)"
      and p: "p < length (out ! i ! j)" and im: "i < length m2"
      and h: "h = \<lparr>hit_motif = int (0 + i) + 1, hit_sequence = int j + 1, hit_start = int p + 1,
            hit_stop = int p + int (length (m2 ! (0 + i))), hit_score = out ! i ! j ! p\<rparr>"
      by auto
    from scan_sequences_cpp_internal_fits [OF out] im j m2_len
    have js: "j < length seq_vecs" by auto
    from out_nth [OF im js] p k have "p \<le> length (seq_vecs ! j)" by linarith
    with h im js show ?thesis
      by (simp add: get_match_def vec_at_int_def vec_at_def substr_int_def substr_def)
  qed
  then obtain matches where "get_matches res seq_vecs m2 = Inr matches"
    unfolding get_matches_def using for_each_total [of res "get_match seq_vecs m2"] by blast
  with check out res show ?thesis
    unfolding scan_sequences_cpp_def Let_def format_results_def m2_def [symmetric]
      t2_def [symmetric] w_def [symmetric]
    by simp
qed

subsection \<open>Conditions the entry point does not check\<close>

text \<open>
  C9, as the code has it. A call with two thresholds for one score matrix returns a
  hit table, and so does a call with an empty alphabet: there every character is
  unrecognized, the window scores \<open>-999999\<close>, and the threshold \<open>-1000\<close> lets it
  pass.
\<close>

theorem contract_violations_counterexample:
  "length [[[0, 0 :: real]]] \<noteq> length [0, 5 :: real] \<and>
   scan_sequences_cpp [[[0, 0]]] [''A''] 1 ''AC'' [0, 5] 1 False True =
     Inr ([], [\<lparr>df_motif = 1, df_sequence = 1, df_start = 1, df_stop = 1, df_score = 0,
                  df_match = ''A''\<rparr>]) \<and>
   scan_sequences_cpp [[[]]] [''A''] 1 [] [- 1000] 1 False True =
     Inr ([na_warning],
          [\<lparr>df_motif = 1, df_sequence = 1, df_start = 1, df_stop = 1,
             df_score = round_double (- 999999 / 1000), df_match = ''A''\<rparr>])"
  by (simp add: scan_defs loop_simps)

text \<open>
  C9, amended. The call checks none of the three conditions. Whatever \<open>k\<close>, the
  alphabet and the thresholds are, the only error it raises with \<open>Rcpp::stop\<close> is the
  one for a sequence shorter than a motif. Thresholds beyond the number of score matrices are
  ignored: the call returns what it returns without them. With an empty alphabet
  every character is unrecognized; for \<open>k = 1\<close>, sequences (of fewer than \<open>2 ^ 64 - 1\<close>
  characters) at least as long as every motif is wide and a threshold for every score
  matrix, the call returns a hit table, with the warning if it is requested and some
  sequence is not empty. (Fewer thresholds than score matrices and \<open>k \<le> 0\<close> are not
  checked either; what the call does then is not part of this statement.)
\<close>

theorem contract_violations_unchecked:
  "(scan_sequences_cpp score_mats seq_vecs k alph min_scores nthreads allow_nonfinite warnNA
      = Inl (Stop msg) \<longrightarrow>
    msg = short_seq_error \<and> (\<exists>m \<in> set score_mats. \<exists>s \<in> set seq_vecs. length s < length m)) \<and>
   (length score_mats \<le> length min_scores \<longrightarrow>
    scan_sequences_cpp score_mats seq_vecs k alph (min_scores @ extra) nthreads allow_nonfinite
      warnNA =
    scan_sequences_cpp score_mats seq_vecs k alph min_scores nthreads allow_nonfinite warnNA) \<and>
   ((\<forall>m \<in> set score_mats. \<forall>s \<in> set seq_vecs. length m \<le> length s) \<and>
    (\<forall>s \<in> set seq_vecs. length s + 1 < 2 ^ 64) \<and>
    length score_mats \<le> length min_scores \<longrightarrow>
    (\<exists>rows. scan_sequences_cpp score_mats seq_vecs 1 [] min_scores nthreads allow_nonfinite warnNA
       = Inr (if (\<exists>s \<in> set seq_vecs. s \<noteq> []) \<and> warnNA then [na_warning] else [], rows)))"
proof -
  have 1: "scan_sequences_cpp score_mats seq_vecs k alph min_scores nthreads allow_nonfinite warnNA
      = Inl (Stop msg) \<longrightarrow>
    msg = short_seq_error \<and> (\<exists>m \<in> set score_mats. \<exists>s \<in> set seq_vecs. length s < length m)"
    by (simp add: scan_sequences_cpp_Stop)
  have 2: "length score_mats \<le> length min_scores \<longrightarrow>
    scan_sequences_cpp score_mats seq_vecs k alph (min_scores @ extra) nthreads allow_nonfinite
      warnNA =
    scan_sequences_cpp score_mats seq_vecs k alph min_scores nthreads allow_nonfinite warnNA"
    by (simp add: surplus_thresholds_ignored)
  have 3: "(\<forall>m \<in> set score_mats. \<forall>s \<in> set seq_vecs. length m \<le> length s) \<and>
    (\<forall>s \<in> set seq_vecs. length s + 1 < 2 ^ 64) \<and>
    length score_mats \<le> length min_scores \<longrightarrow>
    (\<exists>rows. scan_sequences_cpp score_mats seq_vecs 1 [] min_scores nthreads allow_nonfinite warnNA
       = Inr (if (\<exists>s \<in> set seq_vecs. s \<noteq> []) \<and> warnNA then [na_warning] else [], rows))"
  proof
    assume a: "(\<forall>m \<in> set score_mats. \<forall>s \<in> set seq_vecs. length m \<le> length s) \<and>
      (\<forall>s \<in> set seq_vecs. length s + 1 < 2 ^ 64) \<and>
      length score_mats \<le> length min_scores"
    have k: "(1 :: int) \<le> 1" by simp
    have fit: "\<forall>m \<in> set score_mats. \<forall>s \<in> set seq_vecs. int (length m) + 1 \<le> int (length s) + 1"
      using a by simp
    have klen: "\<forall>s \<in> set seq_vecs. 1 \<le> int (length s) + 1 \<and> length s + 1 < 2 ^ 64"
      using a by simp
    have rows: "\<forall>m \<in> set score_mats. \<forall>row \<in> set m.
                  int (length ([] :: char list)) ^ nat 1 \<le> int (length row)"
      by simp
    have ths: "length score_mats \<le> length min_scores" using a by simp
    have e: "(\<exists>s \<in> set seq_vecs. \<exists>c \<in> set s. c \<notin> set []) \<longleftrightarrow> (\<exists>s \<in> set seq_vecs. s \<noteq> [])"
    proof -
      have "(\<exists>c \<in> set s. c \<notin> set []) \<longleftrightarrow> s \<noteq> []" for s :: "char list"
        by (cases s) auto
      then show ?thesis by simp
    qed
    have npow: "(1 :: int) < 1 \<longrightarrow> int (length ([] :: char list)) ^ nat 1 \<le> 2 ^ 31" by simp
    from scan_sequences_cpp_total [OF k fit klen rows ths npow, of nthreads allow_nonfinite warnNA]
    show "\<exists>rows. scan_sequences_cpp score_mats seq_vecs 1 [] min_scores nthreads allow_nonfinite warnNA
         = Inr (if (\<exists>s \<in> set seq_vecs. s \<noteq> []) \<and> warnNA then [na_warning] else [], rows)"
      unfolding e .
  qed
  from 1 2 3 show ?thesis by (intro conjI)
qed

theorem contract_violations_unchecked_witness:
  "scan_sequences_cpp [[[0, 0]]] [''A''] 1 ''AC'' ([0] @ [5]) 1 False True =
     scan_sequences_cpp [[[0, 0]]] [''A''] 1 ''AC'' [0] 1 False True \<and>
   scan_sequences_cpp [[[0, 0]]] [''A''] 1 ''AC'' [0] 1 False True =
     Inr ([], [\<lparr>df_motif = 1, df_sequence = 1, df_start = 1, df_stop = 1, df_score = 0,
                  df_match = ''A''\<rparr>]) \<and>
   scan_sequences_cpp [[[]]] [''A''] 1 [] [- 1000] 1 False True =
     Inr ([na_warning],
          [\<lparr>df_motif = 1, df_sequence = 1, df_start = 1, df_stop = 1,
             df_score = round_double (- 999999 / 1000), df_match = ''A''\<rparr>]) \<and>
   scan_sequences_cpp [[[0, 0], [0, 0]]] [''A''] 1 ''AC'' [0] 1 False True =
     Inl (Stop short_seq_error)"
proof -
  have l: "length [[[0, 0 :: real]]] \<le> length [0 :: real]" by simp
  have 1: "scan_sequences_cpp [[[0, 0]]] [''A''] 1 ''AC'' ([0] @ [5]) 1 False True =
     scan_sequences_cpp [[[0, 0]]] [''A''] 1 ''AC'' [0] 1 False True"
    using contract_violations_unchecked
            [of "[[[0, 0]]]" "[''A'']" 1 "''AC''" "[0]" 1 False True "[]" "[5]",
             THEN conjunct2, THEN conjunct1, THEN mp, OF l] .
  have s: "(\<forall>m \<in> set [[[] :: real list]]. \<forall>s \<in> set [''A'']. length m \<le> length s) \<and>
    (\<forall>s \<in> set [''A'']. length s + 1 < 2 ^ 64) \<and>
    length [[[] :: real list]] \<le> length [- 1000 :: real]"
    by simp
  have 2: "\<exists>rows. scan_sequences_cpp [[[]]] [''A''] 1 [] [- 1000] 1 False True =
             Inr ([na_warning], rows)"
    using contract_violations_unchecked
            [of "[[[]]]" "[''A'']" 1 "[]" "[- 1000]" 1 False True "[]" "[]",
             THEN conjunct2, THEN conjunct2, THEN mp, OF s]
    by simp
  have 3: "scan_sequences_cpp [[[0, 0], [0, 0]]] [''A''] 1 ''AC'' [0] 1 False True =
     Inl (Stop short_seq_error)"
    by (simp add: scan_defs loop_simps)
  have 4: "short_seq_error = short_seq_error \<and>
     (\<exists>m \<in> set [[[0, 0], [0, 0 :: real]]]. \<exists>s \<in> set [''A'']. length s < length m)"
    using contract_violations_unchecked
            [of "[[[0, 0], [0, 0]]]" "[''A'']" 1 "''AC''" "[0]" 1 False True short_seq_error "[]",
             THEN conjunct1, THEN mp, OF 3] .
  from 1 2 3 4 show ?thesis by (simp add: scan_defs loop_simps)
qed

end
